theory Spec2Isabelle
  imports Main "HOL-Library.AList"
begin

section \<open>The persistent catalog (edb/lang/schema/schema.py)\<close>

subsection \<open>Data model\<close>

text \<open>
  Object identities are opaque and hashable; the model uses natural numbers. The Python
  class of a schema object is its variant tag. A schema object handle carries its identity
  (\<open>scls.id\<close>) and its class (\<open>type(scls)\<close>).
\<close>

type_synonym obj_id = nat
type_synonym field_name = string

datatype stype = Function | Operator | Module | Type | Cast

datatype sobj = SObj (obj_id: obj_id) (obj_type: stype)

text \<open>
  Field values. \<open>NoneV\<close> is Python's \<open>None\<close>, \<open>StrV\<close> a plain string (the name of a
  module), \<open>QNameV name module\<close> a qualified schema name (it has a \<open>.module\<close>
  attribute), \<open>RefV\<close> a reference to one object, \<open>CollV\<close> an \<open>ObjectCollection\<close>
  with the identities it holds, \<open>OtherV\<close> any other value.
\<close>

datatype fval =
    NoneV
  | StrV string
  | QNameV string string
  | RefV obj_id
  | CollV "obj_id list"
  | OtherV nat

datatype schema_msg = NameAlreadyInSchema | AlreadyPresent | CannotGet | CannotSet

datatype edgeql_msg =
    ParameterNotCallable | CouldNotResolveName | NotUnique | NoVariant | CouldNotResolveAny

datatype error =
    KeyError
  | IndexError
  | AttributeError
  | ValueError
  | OverflowError
  | RuntimeError
  | UnicodeDecodeError
  | SchemaError schema_msg
  | SchemaModuleNotFoundError
  | ItemNotFoundError
  | EdgeQLError edgeql_msg

type_synonym obj_data = "field_name \<rightharpoonup> fval"
type_synonym ref_key = "stype \<times> field_name"
type_synonym refs_map = "obj_id \<rightharpoonup> (ref_key \<rightharpoonup> obj_id set)"
type_synonym name_map = "fval \<rightharpoonup> obj_id"
type_synonym shortname_map = "(stype \<times> fval) \<rightharpoonup> obj_id set"

text \<open>
  The six indices and the generation counter of class \<open>Schema\<close>. \<open>id_to_type\<close> is
  iterated by the catalog iterator, so it is an association list (with \<open>map_of\<close> for
  lookup); the other indices are only looked up by key.
\<close>

record schema =
  modules :: name_map
  id_to_data :: "obj_id \<rightharpoonup> obj_data"
  id_to_type :: "(obj_id \<times> sobj) list"
  shortname_to_id :: shortname_map
  name_to_id :: name_map
  refs_to :: refs_map
  generation :: nat

definition empty_schema :: schema where
  "empty_schema = \<lparr> modules = Map.empty, id_to_data = Map.empty, id_to_type = [],
     shortname_to_id = Map.empty, name_to_id = Map.empty, refs_to = Map.empty,
     generation = 0 \<rparr>"

text \<open>
  Parts of the object model that live outside schema.py and are taken as parameters:
  the names of the reference-typed fields of a class (\<open>get_object_fields\<close>) and
  \<open>sn.shortname_from_fullname\<close>.
\<close>

record ext =
  get_object_fields :: "stype \<Rightarrow> field_name list"
  shortname_from_fullname :: "fval \<Rightarrow> fval"

subsection \<open>Primitive operations of the immutable maps\<close>

text \<open>\<open>Map.delete\<close> raises \<open>KeyError\<close> when the key is absent.\<close>

definition map_delete :: "('k \<rightharpoonup> 'v) \<Rightarrow> 'k \<Rightarrow> error + ('k \<rightharpoonup> 'v)" where
  "map_delete m k = (if k \<in> dom m then Inr (m(k := None)) else Inl KeyError)"

definition alist_delete :: "('k \<times> 'v) list \<Rightarrow> 'k \<Rightarrow> error + ('k \<times> 'v) list" where
  "alist_delete m k =
     (if map_of m k \<noteq> None then Inr (AList.delete k m) else Inl KeyError)"

text \<open>\<open>d.get(field)\<close>: \<open>None\<close> when the key is absent.\<close>

definition data_get :: "obj_data \<Rightarrow> field_name \<Rightarrow> fval" where
  "data_get d f = (case d f of None \<Rightarrow> NoneV | Some v \<Rightarrow> v)"

subsection \<open>\<open>Schema._replace\<close>\<close>

definition replace ::
  "schema \<Rightarrow> (obj_id \<rightharpoonup> obj_data) option \<Rightarrow> (obj_id \<times> sobj) list option \<Rightarrow>
   name_map option \<Rightarrow> shortname_map option \<Rightarrow> name_map option \<Rightarrow> refs_map option \<Rightarrow>
   schema" where
  "replace S id_to_data' id_to_type' name_to_id' shortname_to_id' modules' refs_to' =
     \<lparr> modules = (case modules' of None \<Rightarrow> modules S | Some m \<Rightarrow> m),
       id_to_data = (case id_to_data' of None \<Rightarrow> id_to_data S | Some m \<Rightarrow> m),
       id_to_type = (case id_to_type' of None \<Rightarrow> id_to_type S | Some m \<Rightarrow> m),
       shortname_to_id =
         (case shortname_to_id' of None \<Rightarrow> shortname_to_id S | Some m \<Rightarrow> m),
       name_to_id = (case name_to_id' of None \<Rightarrow> name_to_id S | Some m \<Rightarrow> m),
       refs_to = (case refs_to' of None \<Rightarrow> refs_to S | Some m \<Rightarrow> m),
       generation = generation S + 1 \<rparr>"

subsection \<open>\<open>Schema._update_obj_name\<close>\<close>

definition update_obj_name ::
  "ext \<Rightarrow> schema \<Rightarrow> obj_id \<Rightarrow> sobj \<Rightarrow> fval \<Rightarrow> fval \<Rightarrow> error + (name_map \<times> shortname_map)"
  where
  "update_obj_name X S oid scls old_name new_name =
     (let stype = obj_type scls;
          has_sn_cache = (stype = Function \<or> stype = Operator)
      in
      case
        (if old_name \<noteq> NoneV then
           (case map_delete (name_to_id S) old_name of
              Inl e \<Rightarrow> Inl e
            | Inr n2i \<Rightarrow>
                if has_sn_cache then
                  (let sn_key = (stype, shortname_from_fullname X old_name) in
                   case shortname_to_id S sn_key of
                     None \<Rightarrow> Inl KeyError
                   | Some ids \<Rightarrow>
                       (let new_ids = ids - {oid} in
                        if new_ids \<noteq> {} then
                          Inr (n2i, (shortname_to_id S)(sn_key \<mapsto> new_ids))
                        else
                          (case map_delete (shortname_to_id S) sn_key of
                             Inl e \<Rightarrow> Inl e
                           | Inr s2i \<Rightarrow> Inr (n2i, s2i))))
                else Inr (n2i, shortname_to_id S))
         else Inr (name_to_id S, shortname_to_id S))
      of
        Inl e \<Rightarrow> Inl e
      | Inr (n2i, s2i) \<Rightarrow>
          if new_name \<noteq> NoneV then
            (if new_name \<in> dom n2i then Inl (SchemaError NameAlreadyInSchema)
             else
               (let n2i' = n2i(new_name \<mapsto> oid) in
                if has_sn_cache then
                  (let sn_key = (stype, shortname_from_fullname X new_name);
                       ids = (case s2i sn_key of Some ids \<Rightarrow> ids | None \<Rightarrow> {})
                   in Inr (n2i', s2i(sn_key \<mapsto> ids \<union> {oid})))
                else Inr (n2i', s2i)))
          else Inr (n2i, s2i))"

subsection \<open>\<open>Schema._update_refs_to\<close>\<close>

text \<open>
  The identities a field value refers to: \<open>frozenset(ref.ids(self))\<close> for a collection,
  \<open>frozenset((ref.id,))\<close> otherwise; a value with no \<open>.id\<close> raises. The frozenset is kept
  as a duplicate-free list, which fixes the order of the loops over it.
\<close>

definition ref_ids :: "fval \<Rightarrow> error + obj_id list" where
  "ref_ids ref =
     (case ref of
        CollV xs \<Rightarrow> Inr (remdups xs)
      | RefV i \<Rightarrow> Inr [i]
      | _ \<Rightarrow> Inl AttributeError)"

text \<open>
  \<open>ids\<close> (and \<open>orig_ids\<close>) of one field: \<open>None\<close> when the data is \<open>None\<close> or empty or
  lacks the field. An empty mapping lacks every field, so the test \<open>not new_data\<close> and
  the \<open>KeyError\<close> branch give the same \<open>None\<close>.
\<close>

definition field_ids :: "obj_data option \<Rightarrow> field_name \<Rightarrow> error + obj_id list option" where
  "field_ids data f =
     (case data of
        None \<Rightarrow> Inr None
      | Some d \<Rightarrow>
          (case d f of
             None \<Rightarrow> Inr None
           | Some ref \<Rightarrow> (case ref_ids ref of Inl e \<Rightarrow> Inl e | Inr ids \<Rightarrow> Inr (Some ids))))"

text \<open>Python truthiness of an optional frozenset.\<close>

definition truthy :: "obj_id list option \<Rightarrow> bool" where
  "truthy ids = (case ids of None \<Rightarrow> False | Some xs \<Rightarrow> xs \<noteq> [])"

definition ids_minus :: "obj_id list \<Rightarrow> obj_id list \<Rightarrow> obj_id list" where
  "ids_minus xs ys = filter (\<lambda>x. x \<notin> set ys) xs"

text \<open>The loop \<open>for ref_id in new_ids\<close>.\<close>

fun add_refs :: "ref_key \<Rightarrow> obj_id set \<Rightarrow> obj_id list \<Rightarrow> refs_map \<Rightarrow> refs_map" where
  "add_refs key id_set [] mm = mm"
| "add_refs key id_set (ref_id # rest) mm =
     add_refs key id_set rest
       (case mm ref_id of
          None \<Rightarrow> mm(ref_id \<mapsto> [key \<mapsto> id_set])
        | Some refs \<Rightarrow>
            (let field_refs = (case refs key of None \<Rightarrow> id_set | Some fr \<Rightarrow> fr \<union> id_set)
             in mm(ref_id \<mapsto> refs(key \<mapsto> field_refs))))"

text \<open>The loop \<open>for ref_id in old_ids\<close>; both subscripts raise \<open>KeyError\<close> when absent.\<close>

fun del_refs :: "ref_key \<Rightarrow> obj_id set \<Rightarrow> obj_id list \<Rightarrow> refs_map \<Rightarrow> error + refs_map" where
  "del_refs key id_set [] mm = Inr mm"
| "del_refs key id_set (ref_id # rest) mm =
     (case mm ref_id of
        None \<Rightarrow> Inl KeyError
      | Some refs \<Rightarrow>
          (case refs key of
             None \<Rightarrow> Inl KeyError
           | Some fr \<Rightarrow>
               (let field_refs = fr - id_set in
                if field_refs = {} then
                  (case map_delete refs key of
                     Inl e \<Rightarrow> Inl e
                   | Inr refs' \<Rightarrow> del_refs key id_set rest (mm(ref_id \<mapsto> refs')))
                else del_refs key id_set rest (mm(ref_id \<mapsto> refs(key \<mapsto> field_refs))))))"

text \<open>The elements of an optional frozenset (none for \<open>None\<close>).\<close>

definition ids_list :: "obj_id list option \<Rightarrow> obj_id list" where
  "ids_list ids = (case ids of None \<Rightarrow> [] | Some xs \<Rightarrow> xs)"

text \<open>The body of the loop over the object fields, for one field.\<close>

definition update_refs_field ::
  "stype \<Rightarrow> obj_id set \<Rightarrow> obj_data option \<Rightarrow> obj_data option \<Rightarrow> field_name \<Rightarrow>
   refs_map \<Rightarrow> error + refs_map" where
  "update_refs_field scls_type id_set orig_data new_data f mm =
     (case field_ids new_data f of
        Inl e \<Rightarrow> Inl e
      | Inr ids \<Rightarrow>
          (case field_ids orig_data f of
             Inl e \<Rightarrow> Inl e
           | Inr orig_ids \<Rightarrow>
               if \<not> truthy ids \<and> \<not> truthy orig_ids then Inr mm
               else
                 (let key = (scls_type, f);
                      new_ids =
                        (if truthy ids \<and> truthy orig_ids
                           then Some (ids_minus (ids_list ids) (ids_list orig_ids))
                         else if truthy ids then ids
                         else None);
                      old_ids =
                        (if truthy ids \<and> truthy orig_ids
                           then Some (ids_minus (ids_list orig_ids) (ids_list ids))
                         else if truthy ids then None
                         else orig_ids);
                      mm1 = (if truthy new_ids then add_refs key id_set (ids_list new_ids) mm
                             else mm)
                  in if truthy old_ids then del_refs key id_set (ids_list old_ids) mm1
                     else Inr mm1)))"

fun update_refs_fields ::
  "stype \<Rightarrow> obj_id set \<Rightarrow> obj_data option \<Rightarrow> obj_data option \<Rightarrow> field_name list \<Rightarrow>
   refs_map \<Rightarrow> error + refs_map" where
  "update_refs_fields scls_type id_set orig_data new_data [] mm = Inr mm"
| "update_refs_fields scls_type id_set orig_data new_data (f # fs) mm =
     (case update_refs_field scls_type id_set orig_data new_data f mm of
        Inl e \<Rightarrow> Inl e
      | Inr mm' \<Rightarrow> update_refs_fields scls_type id_set orig_data new_data fs mm')"

definition update_refs_to ::
  "ext \<Rightarrow> schema \<Rightarrow> sobj \<Rightarrow> obj_data option \<Rightarrow> obj_data option \<Rightarrow> error + refs_map" where
  "update_refs_to X S scls orig_data new_data =
     (let scls_type = obj_type scls;
          objfields = get_object_fields X scls_type
      in if objfields = [] then Inr (refs_to S)
         else update_refs_fields scls_type {obj_id scls} orig_data new_data objfields
                (refs_to S))"

subsection \<open>\<open>Schema._add\<close>\<close>

definition add :: "ext \<Rightarrow> schema \<Rightarrow> obj_id \<Rightarrow> sobj \<Rightarrow> obj_data \<Rightarrow> error + schema" where
  "add X S oid scls data =
     (case data ''name'' of
        None \<Rightarrow> Inl KeyError
      | Some name \<Rightarrow>
          if name \<in> dom (name_to_id S) then Inl (SchemaError AlreadyPresent)
          else
            (case update_obj_name X S oid scls NoneV name of
               Inl e \<Rightarrow> Inl e
             | Inr (n2i, s2i) \<Rightarrow>
                 (case update_refs_to X S scls None (Some data) of
                    Inl e \<Rightarrow> Inl e
                  | Inr refs \<Rightarrow>
                      (let i2d = (id_to_data S)(oid \<mapsto> data);
                           i2t = AList.update oid scls (id_to_type S)
                       in
                       if obj_type scls = Module then
                         Inr (replace S (Some i2d) (Some i2t) (Some n2i) (Some s2i)
                                (Some ((modules S)(name \<mapsto> oid))) (Some refs))
                       else
                         (case name of
                            QNameV n m \<Rightarrow>
                              if StrV m \<notin> dom (modules S)
                                then Inl SchemaModuleNotFoundError
                              else Inr (replace S (Some i2d) (Some i2t) (Some n2i)
                                          (Some s2i) None (Some refs))
                          | _ \<Rightarrow> Inl AttributeError)))))"

subsection \<open>\<open>Schema._delete\<close>\<close>

definition delete :: "ext \<Rightarrow> schema \<Rightarrow> sobj \<Rightarrow> error + schema" where
  "delete X S obj =
     (case id_to_data S (obj_id obj) of
        None \<Rightarrow> Inl ItemNotFoundError
      | Some data \<Rightarrow>
          (case data ''name'' of
             None \<Rightarrow> Inl KeyError
           | Some name \<Rightarrow>
               (case (if obj_type obj = Module
                        then (case map_delete (modules S) name of
                                Inl e \<Rightarrow> Inl e | Inr m \<Rightarrow> Inr (Some m))
                      else Inr None) of
                  Inl e \<Rightarrow> Inl e
                | Inr mods \<Rightarrow>
                    (case map_of (id_to_type S) (obj_id obj) of
                       None \<Rightarrow> Inl KeyError
                     | Some scls \<Rightarrow>
                         (case update_obj_name X S (obj_id obj) scls name NoneV of
                            Inl e \<Rightarrow> Inl e
                          | Inr (n2i, s2i) \<Rightarrow>
                              (case update_refs_to X S obj (Some data) None of
                                 Inl e \<Rightarrow> Inl e
                               | Inr refs \<Rightarrow>
                                   (case map_delete (id_to_data S) (obj_id obj) of
                                      Inl e \<Rightarrow> Inl e
                                    | Inr i2d \<Rightarrow>
                                        (case alist_delete (id_to_type S) (obj_id obj) of
                                           Inl e \<Rightarrow> Inl e
                                         | Inr i2t \<Rightarrow>
                                             Inr (replace S (Some i2d) (Some i2t) (Some n2i)
                                                    (Some s2i) mods (Some refs))))))))))"

subsection \<open>\<open>Schema._set_obj_field\<close> and \<open>Schema._unset_obj_field\<close>\<close>

definition set_obj_field ::
  "ext \<Rightarrow> schema \<Rightarrow> obj_id \<Rightarrow> field_name \<Rightarrow> fval \<Rightarrow> error + schema" where
  "set_obj_field X S oid field v =
     (case id_to_data S oid of
        None \<Rightarrow> Inl (SchemaError CannotSet)
      | Some data \<Rightarrow>
          (case (if field = ''name'' then
                   (case map_of (id_to_type S) oid of
                      None \<Rightarrow> Inl KeyError
                    | Some scls \<Rightarrow>
                        (case update_obj_name X S oid scls (data_get data ''name'') v of
                           Inl e \<Rightarrow> Inl e
                         | Inr (n2i, s2i) \<Rightarrow> Inr (Some n2i, Some s2i)))
                 else Inr (None, None)) of
             Inl e \<Rightarrow> Inl e
           | Inr (n2i, s2i) \<Rightarrow>
               (let new_data = data(field \<mapsto> v);
                    i2d = (id_to_data S)(oid \<mapsto> new_data)
                in
                case map_of (id_to_type S) oid of
                  None \<Rightarrow> Inl KeyError
                | Some scls \<Rightarrow>
                    (let orig_field_data =
                           (case data field of
                              Some ov \<Rightarrow> [field \<mapsto> ov]
                            | None \<Rightarrow> Map.empty)
                     in
                     case update_refs_to X S scls (Some orig_field_data)
                            (Some [field \<mapsto> v]) of
                       Inl e \<Rightarrow> Inl e
                     | Inr refs \<Rightarrow>
                         Inr (replace S (Some i2d) None n2i s2i None (Some refs))))))"

definition unset_obj_field ::
  "ext \<Rightarrow> schema \<Rightarrow> obj_id \<Rightarrow> field_name \<Rightarrow> error + schema" where
  "unset_obj_field X S oid field =
     (case id_to_data S oid of
        None \<Rightarrow> Inr S
      | Some data \<Rightarrow>
          (let name = data_get data ''name'' in
           case
             (if field = ''name'' \<and> name \<noteq> NoneV then
                (case map_of (id_to_type S) oid of
                   None \<Rightarrow> Inl KeyError
                 | Some scls \<Rightarrow>
                     (case update_obj_name X S oid scls name NoneV of
                        Inl e \<Rightarrow> Inl e
                      | Inr (n2i, s2i) \<Rightarrow>
                          (case map_delete data field of
                             Inl e \<Rightarrow> Inl e
                           | Inr new_data \<Rightarrow> Inr (Some (Some n2i, Some s2i, new_data)))))
              else
                (case map_delete data field of
                   Inl e \<Rightarrow> Inr None
                 | Inr new_data \<Rightarrow> Inr (Some (None, None, new_data))))
           of
             Inl e \<Rightarrow> Inl e
           | Inr None \<Rightarrow> Inr S
           | Inr (Some (n2i, s2i, new_data)) \<Rightarrow>
               (let i2d = (id_to_data S)(oid \<mapsto> new_data) in
                case map_of (id_to_type S) oid of
                  None \<Rightarrow> Inl KeyError
                | Some scls \<Rightarrow>
                    (case data field of
                       None \<Rightarrow> Inl KeyError
                     | Some ov \<Rightarrow>
                         (case update_refs_to X S scls (Some [field \<mapsto> ov]) None of
                            Inl e \<Rightarrow> Inl e
                          | Inr refs \<Rightarrow>
                              Inr (replace S (Some i2d) None n2i s2i None (Some refs)))))))"

subsection \<open>Queries: \<open>get_referrers\<close>\<close>

text \<open>
  \<open>self._id_to_type[objid] for objid in ids\<close>: the objects under the identities, or
  \<open>KeyError\<close> when one of them is not in \<open>id_to_type\<close>.
\<close>

definition objects_of :: "schema \<Rightarrow> obj_id set \<Rightarrow> error + sobj set" where
  "objects_of S ids =
     (if \<forall>i\<in>ids. map_of (id_to_type S) i \<noteq> None
        then Inr (Option.these (map_of (id_to_type S) ` ids))
      else Inl KeyError)"

text \<open>
  With both filters given, the loop over \<open>refs.items()\<close> keeps the one entry whose key is
  \<open>(scls_type, field_name)\<close>, which is the lookup of that key. With one filter or none it
  takes the union over the entries that pass.
\<close>

definition get_referrers ::
  "schema \<Rightarrow> sobj \<Rightarrow> stype option \<Rightarrow> field_name option \<Rightarrow> error + sobj set" where
  "get_referrers S scls scls_type field_name =
     (case refs_to S (obj_id scls) of
        None \<Rightarrow> Inr {}
      | Some refs \<Rightarrow>
          (case scls_type of
             Some st \<Rightarrow>
               (case field_name of
                  Some fn \<Rightarrow>
                    objects_of S (case refs (st, fn) of None \<Rightarrow> {} | Some ids \<Rightarrow> ids)
                | None \<Rightarrow> objects_of S (\<Union>{ids. \<exists>fn. refs (st, fn) = Some ids}))
           | None \<Rightarrow>
               (case field_name of
                  Some fn \<Rightarrow> Inl ValueError
                | None \<Rightarrow> objects_of S (\<Union>(ran refs)))))"

subsection \<open>Queries: \<open>get\<close>, \<open>get_objects\<close> and \<open>_get_descendants\<close>\<close>

text \<open>
  Accessors of schema objects and names that live outside schema.py, taken as
  parameters: \<open>scls.get__virtual_children(schema)\<close> with \<open>.objects(schema)\<close> applied
  (\<open>None\<close> when the field is not set), \<open>c.material_type(schema)\<close>,
  \<open>c.get_name(schema)\<close>, \<open>p.get_bases(schema).objects(schema)\<close>, and \<open>sn.split_name\<close>,
  which gives the name, its module (if it has one) and its short name.
\<close>

record accessors =
  get_virtual_children :: "schema \<Rightarrow> sobj \<Rightarrow> sobj list option"
  material_type :: "schema \<Rightarrow> sobj \<Rightarrow> sobj"
  get_name :: "schema \<Rightarrow> sobj \<Rightarrow> fval"
  get_bases :: "schema \<Rightarrow> sobj \<Rightarrow> sobj list"
  split_name :: "fval \<Rightarrow> fval \<times> string option \<times> string"

text \<open>\<open>Schema._get_by_name\<close> for one type or none (\<open>isinstance\<close> is the test of the tag).\<close>

definition get_by_name :: "schema \<Rightarrow> fval \<Rightarrow> stype option \<Rightarrow> error + sobj option" where
  "get_by_name S name type =
     (case name_to_id S name of
        None \<Rightarrow> Inr None
      | Some oid \<Rightarrow>
          (case map_of (id_to_type S) oid of
             None \<Rightarrow> Inl KeyError
           | Some obj \<Rightarrow>
               (case type of
                  None \<Rightarrow> Inr (Some obj)
                | Some t \<Rightarrow> if obj_type obj \<noteq> t then Inr None else Inr (Some obj))))"

text \<open>
  \<open>Schema.get\<close> with \<open>Schema._get\<close> unfolded, its getter being \<open>_get_by_name\<close>. The
  default is \<open>None\<close> for the marker \<open>_void\<close> (no default given).
\<close>

definition get ::
  "accessors \<Rightarrow> schema \<Rightarrow> fval \<Rightarrow> sobj option \<Rightarrow> (string option \<rightharpoonup> string) option \<Rightarrow>
   stype option \<Rightarrow> error + sobj" where
  "get A S name default_obj module_aliases type =
     (case split_name A name of
        (nm, module, shortname) \<Rightarrow>
          (let implicit_builtins = (module = None);
               module' =
                 (case module_aliases of
                    None \<Rightarrow> module
                  | Some aliases \<Rightarrow>
                      (case aliases module of None \<Rightarrow> module | Some fq \<Rightarrow> Some fq))
           in
           case (case module' of
                   Some m \<Rightarrow> get_by_name S (QNameV shortname m) type
                 | None \<Rightarrow> get_by_name S (StrV shortname) type) of
             Inl e \<Rightarrow> Inl e
           | Inr (Some obj) \<Rightarrow> Inr obj
           | Inr None \<Rightarrow>
               (case (if implicit_builtins
                        then get_by_name S (QNameV shortname ''std'') type
                      else Inr None) of
                  Inl e \<Rightarrow> Inl e
                | Inr (Some obj) \<Rightarrow> Inr obj
                | Inr None \<Rightarrow>
                    (case default_obj of
                       Some obj \<Rightarrow> Inr obj
                     | None \<Rightarrow> Inl ItemNotFoundError))))"

text \<open>
  \<open>SchemaIterator\<close>: the objects of \<open>id_to_type\<close>, in its order, that pass the filter
  on the type and the filter on the modules (where one is given). The second filter
  reads \<open>.module\<close> of the object's name.
\<close>

fun iter_objects ::
  "accessors \<Rightarrow> schema \<Rightarrow> string list option \<Rightarrow> stype option \<Rightarrow> sobj list \<Rightarrow>
   error + sobj list" where
  "iter_objects A S mods type [] = Inr []"
| "iter_objects A S mods type (obj # rest) =
     (case (if (case type of None \<Rightarrow> True | Some t \<Rightarrow> obj_type obj = t) then
              (case mods of
                 None \<Rightarrow> Inr True
               | Some ms \<Rightarrow>
                   if obj_type obj = Module then Inr False
                   else (case get_name A S obj of
                           QNameV n m \<Rightarrow> Inr (m \<in> set ms)
                         | _ \<Rightarrow> Inl AttributeError))
            else Inr False) of
        Inl e \<Rightarrow> Inl e
      | Inr keep \<Rightarrow>
          (case iter_objects A S mods type rest of
             Inl e \<Rightarrow> Inl e
           | Inr objs \<Rightarrow> Inr (if keep then obj # objs else objs)))"

definition get_objects ::
  "accessors \<Rightarrow> schema \<Rightarrow> string list option \<Rightarrow> stype option \<Rightarrow> error + sobj list" where
  "get_objects A S mods type = iter_objects A S mods type (map snd (id_to_type S))"

text \<open>\<open>Schema._find_children\<close>; the set of names is a list without duplicates.\<close>

definition find_children :: "accessors \<Rightarrow> schema \<Rightarrow> sobj \<Rightarrow> error + fval list" where
  "find_children A S scls =
     (case get_objects A S None (Some (obj_type scls)) of
        Inl e \<Rightarrow> Inl e
      | Inr it \<Rightarrow>
          Inr (remdups (map (get_name A S) (filter (\<lambda>p. scls \<in> set (get_bases A S p)) it))))"

text \<open>\<open>{self.get(n, type=type(scls)) for n in child_names}\<close>.\<close>

fun get_all :: "accessors \<Rightarrow> schema \<Rightarrow> stype \<Rightarrow> fval list \<Rightarrow> error + sobj list" where
  "get_all A S t [] = Inr []"
| "get_all A S t (n # ns) =
     (case get A S n None None (Some t) of
        Inl e \<Rightarrow> Inl e
      | Inr obj \<Rightarrow>
          (case get_all A S t ns of Inl e \<Rightarrow> Inl e | Inr objs \<Rightarrow> Inr (obj # objs)))"

text \<open>The first lines of \<open>_get_descendants\<close>, up to the set \<open>children\<close>.\<close>

definition children_of :: "accessors \<Rightarrow> schema \<Rightarrow> sobj \<Rightarrow> error + sobj list" where
  "children_of A S scls =
     (case (case get_virtual_children A S scls of
              None \<Rightarrow> find_children A S scls
            | Some vc \<Rightarrow> Inr (map (\<lambda>c. get_name A S (material_type A S c)) vc)) of
        Inl e \<Rightarrow> Inl e
      | Inr child_names \<Rightarrow>
          (case get_all A S (obj_type scls) child_names of
             Inl e \<Rightarrow> Inl e
           | Inr children \<Rightarrow> Inr (remdups children)))"

text \<open>\<open>result.update(...)\<close> over the results of the recursive calls, in order.\<close>

fun union_all :: "(error + sobj list) list \<Rightarrow> error + sobj list" where
  "union_all [] = Inr []"
| "union_all (r # rs) =
     (case r of
        Inl e \<Rightarrow> Inl e
      | Inr xs \<Rightarrow> (case union_all rs of Inl e \<Rightarrow> Inl e | Inr ys \<Rightarrow> Inr (xs @ ys)))"

function get_descendants ::
  "accessors \<Rightarrow> schema \<Rightarrow> sobj \<Rightarrow> nat option \<Rightarrow> nat \<Rightarrow> error + sobj list" where
  "get_descendants A S scls max_depth depth =
     (case children_of A S scls of
        Inl e \<Rightarrow> Inl e
      | Inr children \<Rightarrow>
          (case (case max_depth of
                   None \<Rightarrow> Inr []
                 | Some md \<Rightarrow>
                     if depth < md then
                       union_all
                         (map (\<lambda>child. get_descendants A S child max_depth (depth + 1))
                            children)
                     else Inr []) of
             Inl e \<Rightarrow> Inl e
           | Inr result \<Rightarrow> Inr (remdups (result @ children))))"
  by pat_completeness auto
termination
  by (relation "measure (\<lambda>(A, S, scls, max_depth, depth).
        case max_depth of None \<Rightarrow> 0 | Some md \<Rightarrow> md - depth)") auto



subsection \<open>The reverse-reference index and the references that objects store\<close>

text \<open>
  \<open>refs_to[B][(type, F)]\<close>, the empty set where an entry is missing; whether some data
  stores in field \<open>f\<close> a reference (single or in a collection) to \<open>b\<close>; and the
  correspondence between the two that the catalog is to keep: every handle in
  \<open>id_to_type\<close> stands under its own identity, and the entry of \<open>b\<close> under \<open>(st, f)\<close>
  holds exactly the identities of the objects of class \<open>st\<close> whose reference-typed field
  \<open>f\<close> refers to \<open>b\<close>.
\<close>

definition refs_entry :: "refs_map \<Rightarrow> obj_id \<Rightarrow> ref_key \<Rightarrow> obj_id set" where
  "refs_entry mm b key =
     (case mm b of
        None \<Rightarrow> {}
      | Some refs \<Rightarrow> (case refs key of None \<Rightarrow> {} | Some ids \<Rightarrow> ids))"

definition stores_ref :: "obj_data \<Rightarrow> field_name \<Rightarrow> obj_id \<Rightarrow> bool" where
  "stores_ref d f b =
     (case d f of
        Some (RefV i) \<Rightarrow> i = b
      | Some (CollV xs) \<Rightarrow> b \<in> set xs
      | _ \<Rightarrow> False)"

definition refs_index_ok :: "ext \<Rightarrow> schema \<Rightarrow> bool" where
  "refs_index_ok X S =
     ((\<forall>a obj. map_of (id_to_type S) a = Some obj \<longrightarrow> obj_id obj = a) \<and>
      (\<forall>b st f.
         refs_entry (refs_to S) b (st, f) =
           {a. \<exists>obj d. map_of (id_to_type S) a = Some obj \<and> obj_type obj = st \<and>
                        f \<in> set (get_object_fields X st) \<and>
                        id_to_data S a = Some d \<and> stores_ref d f b}))"


text \<open>The identities that the field \<open>f\<close> of some data refers to.\<close>

definition field_ref_set :: "obj_data option \<Rightarrow> field_name \<Rightarrow> obj_id set" where
  "field_ref_set data f = (case data of None \<Rightarrow> {} | Some d \<Rightarrow> {b. stores_ref d f b})"


text \<open>Whether the object under identity \<open>a\<close>, being of class \<open>st\<close>, refers to \<open>r\<close> in field \<open>f\<close>.\<close>

definition refers ::
  "(obj_id \<times> sobj) list \<Rightarrow> (obj_id \<rightharpoonup> obj_data) \<Rightarrow> obj_id \<Rightarrow> stype \<Rightarrow> field_name \<Rightarrow>
   obj_id \<Rightarrow> bool" where
  "refers T D a st f r =
     (\<exists>obj d. map_of T a = Some obj \<and> obj_type obj = st \<and> D a = Some d \<and> stores_ref d f r)"


section \<open>Function call compilation (edb/lang/edgeql/compiler/func.py)\<close>

subsection \<open>Data model\<close>

datatype parameter_kind = POSITIONAL | NAMED_ONLY | VARIADIC

datatype type_modifier = SET_OF | OPTIONAL | SINGLETON

datatype language = EdgeQL | SQL

text \<open>
  A parameter of a function: name, kind, declared type, type modifier and default (its
  source text, \<open>None\<close> when the parameter is required). Schema types are a type
  parameter \<open>'t\<close> of the model.
\<close>

record 't param =
  pname :: string
  pkind :: parameter_kind
  ptype :: 't
  ptypemod :: type_modifier
  pdefault :: "string option"

text \<open>
  \<open>func.params.as_pg_params()\<close> is computed outside func.py; the function object
  carries its result: the parameters in binding order and the flag
  \<open>has_param_wo_default\<close>.
\<close>

record 't pg_params =
  pg_params :: "'t param list"
  has_param_wo_default :: bool

record 't func =
  params :: "'t param list"
  as_pg_params :: "'t pg_params"
  language :: language
  return_type :: 't

text \<open>
  Intermediate-representation nodes, as far as the binder builds them: an argument
  compiled at the call site (opaque), the nodes made by \<open>irast.BytesConstant\<close>,
  \<open>irutils.new_empty_set\<close>, \<open>param.get_ir_default\<close> and \<open>setgen.ensure_set\<close>, and
  \<open>NoneIR\<close> for Python's \<open>None\<close> in a slot that is still to be filled.
\<close>

datatype 't ir =
    NoneIR
  | Expr nat
  | BytesConstant string 't
  | EmptySet 't string
  | IRDefault string
  | EnsureSet "'t ir" 't

record 't BoundCall =
  bc_func :: "'t func option"
  bc_args :: "'t ir list option"
  bc_return_type :: "'t option"
  used_implicit_casts :: bool
  has_empty_variadic :: bool

definition NO_MATCH :: "'t BoundCall" where
  "NO_MATCH = \<lparr> bc_func = None, bc_args = None, bc_return_type = None,
     used_implicit_casts = False, has_empty_variadic = False \<rparr>"

text \<open>
  What the binder asks of its surroundings: the methods of schema types (types.py), whether
  the call site is inside a polymorphic function, the result of
  \<open>ctx.schema.get('std::bytes')\<close> (\<open>None\<close> when the catalog has no such item, and then
  \<open>get\<close> raises), and whether a parameter's stored default compiles to an empty set.
\<close>

record 't env =
  is_polymorphic :: "'t \<Rightarrow> bool"
  resolve_polymorphic :: "'t \<Rightarrow> 't \<Rightarrow> 't option"
  issubclass :: "'t \<Rightarrow> 't \<Rightarrow> bool"
  implicitly_castable_to :: "'t \<Rightarrow> 't \<Rightarrow> bool"
  get_subtypes :: "'t \<Rightarrow> 't list"
  to_nonpolymorphic :: "'t \<Rightarrow> 't \<Rightarrow> 't"
  type_name :: "'t \<Rightarrow> string"
  in_polymorphic_func :: bool
  std_bytes :: "'t option"
  default_is_empty :: "'t param \<Rightarrow> bool"

text \<open>
  Positional arguments are a list of (type, value) pairs; named arguments are a dict from
  name to such a pair, kept as an association list (a dict has each key once).
\<close>

type_synonym 't call_args = "('t \<times> 't ir) list"
type_synonym 't call_kwargs = "(string \<times> ('t \<times> 't ir)) list"

text \<open>The local variables of \<open>try_bind_func_args\<close> that its closures and loops update.\<close>

record 't bind_state =
  used_implicit_cast :: bool
  resolved_poly_base_type :: "'t option"
  bound_param_args :: "('t param \<times> 't ir) list"
  populate_defaults :: bool
  empty_variadic :: bool

definition init_state :: "'t bind_state" where
  "init_state = \<lparr> used_implicit_cast = False, resolved_poly_base_type = None,
     bound_param_args = [], populate_defaults = False, empty_variadic = False \<rparr>"

subsection \<open>The closures \<open>_check_type\<close> and \<open>_check_any\<close>\<close>

definition check_type :: "'t env \<Rightarrow> 't \<Rightarrow> 't \<Rightarrow> 't bind_state \<Rightarrow> bool \<times> 't bind_state" where
  "check_type E arg_type param_type s =
     (if is_polymorphic E arg_type \<and> in_polymorphic_func E \<and>
         resolve_polymorphic E arg_type param_type \<noteq> None then (True, s)
      else if issubclass E arg_type param_type then (True, s)
      else if implicitly_castable_to E arg_type param_type
        then (True, s\<lparr>used_implicit_cast := True\<rparr>)
      else (False, s))"

definition check_any :: "'t env \<Rightarrow> 't \<Rightarrow> 't \<Rightarrow> 't bind_state \<Rightarrow> bool \<times> 't bind_state" where
  "check_any E arg_type param_type s =
     (if in_polymorphic_func E \<and> is_polymorphic E arg_type \<and> param_type = arg_type
        then (True, s)
      else if \<not> is_polymorphic E param_type then (True, s)
      else
        (case resolve_polymorphic E param_type arg_type of
           None \<Rightarrow> (False, s)
         | Some resolved \<Rightarrow>
             (case resolved_poly_base_type s of
                None \<Rightarrow> (True, s\<lparr>resolved_poly_base_type := Some resolved\<rparr>)
              | Some r \<Rightarrow> (r = resolved, s))))"

text \<open>
  The pair of tests made for each argument that is bound:
  \<open>if not _check_type(..): return _NO_MATCH\<close>, then
  \<open>if not _check_any(..): return _NO_MATCH\<close>. \<open>None\<close> is the return of \<open>_NO_MATCH\<close>.
\<close>

definition check_arg :: "'t env \<Rightarrow> 't \<Rightarrow> 't \<Rightarrow> 't bind_state \<Rightarrow> 't bind_state option" where
  "check_arg E arg_type param_type s =
     (case check_type E arg_type param_type s of
        (ok, s1) \<Rightarrow>
          if \<not> ok then None
          else (case check_any E arg_type param_type s1 of
                  (ok', s2) \<Rightarrow> if \<not> ok' then None else Some s2))"

definition append_bound :: "'t param \<Rightarrow> 't ir \<Rightarrow> 't bind_state \<Rightarrow> 't bind_state" where
  "append_bound p v s = s\<lparr>bound_param_args := bound_param_args s @ [(p, v)]\<rparr>"

subsection \<open>The three binding steps\<close>

text \<open>
  Step 1, the loop over the leading NAMED ONLY parameters. The list argument is
  \<open>params[pi:]\<close>; the result holds \<open>matched_kwargs\<close>, the parameters left and the state.
\<close>

fun bind_named ::
  "'t env \<Rightarrow> 't call_kwargs \<Rightarrow> 't param list \<Rightarrow> nat \<Rightarrow> 't bind_state \<Rightarrow>
   (nat \<times> 't param list \<times> 't bind_state) option" where
  "bind_named E kwargs [] matched_kwargs s = Some (matched_kwargs, [], s)"
| "bind_named E kwargs (param # rest) matched_kwargs s =
     (if pkind param \<noteq> NAMED_ONLY then Some (matched_kwargs, param # rest, s)
      else
        (case map_of kwargs (pname param) of
           Some (arg_type, arg_val) \<Rightarrow>
             (case check_arg E arg_type (ptype param) s of
                None \<Rightarrow> None
              | Some s' \<Rightarrow>
                  bind_named E kwargs rest (matched_kwargs + 1)
                    (append_bound param arg_val s'))
         | None \<Rightarrow>
             if pdefault param = None then None
             else bind_named E kwargs rest matched_kwargs
                    (append_bound param NoneIR (s\<lparr>populate_defaults := True\<rparr>))))"

text \<open>The loop \<open>for arg_type, arg_val in args[ai:]\<close> after a VARIADIC parameter is met.\<close>

fun bind_variadic ::
  "'t env \<Rightarrow> 't \<Rightarrow> 't param \<Rightarrow> 't call_args \<Rightarrow> 't bind_state \<Rightarrow> 't bind_state option"
  where
  "bind_variadic E var_type param [] s = Some s"
| "bind_variadic E var_type param ((arg_type, arg_val) # rest) s =
     (case check_arg E arg_type var_type s of
        None \<Rightarrow> None
      | Some s' \<Rightarrow> bind_variadic E var_type param rest (append_bound param arg_val s'))"

text \<open>
  Step 2, the loop over the positional arguments. The lists are \<open>args[ai:]\<close> and
  \<open>params[pi:]\<close>; the result holds the parameters left for step 3.
\<close>

fun bind_positional ::
  "'t env \<Rightarrow> 't call_args \<Rightarrow> 't param list \<Rightarrow> 't bind_state \<Rightarrow>
   error + ('t param list \<times> 't bind_state) option" where
  "bind_positional E [] ps s = Inr (Some (ps, s))"
| "bind_positional E ((arg_type, arg_val) # rest) [] s = Inr None"
| "bind_positional E ((arg_type, arg_val) # rest) (param # ps) s =
     (if pkind param = NAMED_ONLY then Inl RuntimeError
      else if pkind param = VARIADIC then
        (case get_subtypes E (ptype param) of
           [] \<Rightarrow> Inl IndexError
         | var_type # _ \<Rightarrow>
             (case check_arg E arg_type var_type s of
                None \<Rightarrow> Inr None
              | Some s' \<Rightarrow>
                  (case bind_variadic E var_type param rest
                          (append_bound param arg_val s') of
                     None \<Rightarrow> Inr None
                   | Some s'' \<Rightarrow> Inr (Some (ps, s'')))))
      else
        (case check_arg E arg_type (ptype param) s of
           None \<Rightarrow> Inr None
         | Some s' \<Rightarrow> bind_positional E rest ps (append_bound param arg_val s')))"

text \<open>Step 3, the loop \<open>for pi in range(pi, nparams)\<close> over the parameters left.\<close>

fun bind_trailing :: "'t param list \<Rightarrow> 't bind_state \<Rightarrow> error + 't bind_state option" where
  "bind_trailing [] s = Inr (Some s)"
| "bind_trailing (param # ps) s =
     (case pkind param of
        POSITIONAL \<Rightarrow>
          if pdefault param = None then Inr None
          else bind_trailing ps (append_bound param NoneIR (s\<lparr>populate_defaults := True\<rparr>))
      | VARIADIC \<Rightarrow> bind_trailing ps (s\<lparr>empty_variadic := True\<rparr>)
      | NAMED_ONLY \<Rightarrow> Inl RuntimeError)"

text \<open>Steps 1 to 3 in sequence, with the test for extra named arguments between 1 and 2.\<close>

definition bind_params ::
  "'t env \<Rightarrow> 't call_args \<Rightarrow> 't call_kwargs \<Rightarrow> 't param list \<Rightarrow>
   error + 't bind_state option" where
  "bind_params E args kwargs ps =
     (case bind_named E kwargs ps 0 init_state of
        None \<Rightarrow> Inr None
      | Some (matched_kwargs, ps1, s1) \<Rightarrow>
          if matched_kwargs \<noteq> length kwargs then Inr None
          else
            (case bind_positional E args ps1 s1 of
               Inl e \<Rightarrow> Inl e
             | Inr None \<Rightarrow> Inr None
             | Inr (Some (ps2, s2)) \<Rightarrow> bind_trailing ps2 s2))"

subsection \<open>Default population and the defaults bitmask\<close>

text \<open>
  The loop \<open>for i in range(len(bound_param_args))\<close>, run when \<open>populate_defaults\<close> is set.
  It returns the updated entries from index \<open>i\<close> on and the bits it adds to
  \<open>defaults_mask\<close>, a Python integer (unbounded, so a natural number here).
\<close>

fun populate ::
  "'t env \<Rightarrow> bool \<Rightarrow> 't option \<Rightarrow> nat \<Rightarrow> ('t param \<times> 't ir) list \<Rightarrow>
   error + (('t param \<times> 't ir) list \<times> nat)" where
  "populate E edgeql_func resolved i [] = Inr ([], 0)"
| "populate E edgeql_func resolved i ((param, val) # rest) =
     (if val \<noteq> NoneIR then
        (case populate E edgeql_func resolved (i + 1) rest of
           Inl e \<Rightarrow> Inl e
         | Inr (rest', bits) \<Rightarrow> Inr ((param, val) # rest', bits))
      else
        (let empty_default = (edgeql_func \<or> default_is_empty E param) in
         case (if empty_default then
                 (if type_name E (ptype param) = ''std::any'' then
                    (case resolved of
                       None \<Rightarrow> Inl (EdgeQLError CouldNotResolveAny)
                     | Some r \<Rightarrow> Inr r)
                  else Inr (ptype param))
               else Inr (ptype param)) of
           Inl e \<Rightarrow> Inl e
         | Inr default_type \<Rightarrow>
             (let default = (if edgeql_func then EmptySet default_type (pname param)
                             else IRDefault (pname param))
              in
              case populate E edgeql_func resolved (i + 1) rest of
                Inl e \<Rightarrow> Inl e
              | Inr (rest', bits) \<Rightarrow>
                  Inr ((param, EnsureSet default default_type) # rest',
                       or (push_bit i 1) bits))))"

text \<open>\<open>int.to_bytes(length, 'little')\<close> and \<open>bytes.decode('ascii')\<close>.\<close>

fun le_bytes :: "nat \<Rightarrow> nat \<Rightarrow> nat list" where
  "le_bytes 0 v = []"
| "le_bytes (Suc n) v = (v mod 256) # le_bytes n (v div 256)"

definition to_bytes :: "nat \<Rightarrow> nat \<Rightarrow> error + nat list" where
  "to_bytes v n = (if v < 256 ^ n then Inr (le_bytes n v) else Inl OverflowError)"

definition decode_ascii :: "nat list \<Rightarrow> error + string" where
  "decode_ascii bs =
     (if \<forall>b\<in>set bs. b < 128 then Inr (map char_of bs) else Inl UnicodeDecodeError)"

text \<open>
  The raw string literal \<open>r"\x00"\<close> of the source: the four characters backslash, x, 0, 0,
  which is how a bytes literal spells the single byte zero.
\<close>

definition zero_byte_literal :: string where
  "zero_byte_literal = [CHR 0x5C, CHR ''x'', CHR ''0'', CHR ''0'']"

subsection \<open>\<open>try_bind_func_args\<close>\<close>

text \<open>
  The arguments \<open>funcname\<close> and \<open>fatal_array_check\<close> are not read by the body. The
  scope bookkeeping of the last loop (\<open>pathctx\<close>) acts on the compiler context and leaves
  the list of bound arguments as it is.
\<close>

definition try_bind_func_args ::
  "'t env \<Rightarrow> 't call_args \<Rightarrow> 't call_kwargs \<Rightarrow> 't func \<Rightarrow> error + 't BoundCall" where
  "try_bind_func_args E args kwargs func =
     (let edgeql_func = (language func = EdgeQL);
          no_args_call = (args = [] \<and> kwargs = [])
      in
      if params func = [] then
        (if no_args_call then
           (if edgeql_func then
              (case std_bytes E of
                 None \<Rightarrow> Inl ItemNotFoundError
               | Some bytes_t \<Rightarrow>
                   Inr \<lparr> bc_func = Some func,
                         bc_args = Some [EnsureSet (BytesConstant zero_byte_literal bytes_t)
                                           bytes_t],
                         bc_return_type = Some (return_type func),
                         used_implicit_casts = False, has_empty_variadic = False \<rparr>)
            else
              Inr \<lparr> bc_func = Some func, bc_args = Some [],
                    bc_return_type = Some (return_type func),
                    used_implicit_casts = False, has_empty_variadic = False \<rparr>)
         else Inr NO_MATCH)
      else
        (let pgp = as_pg_params func in
         if no_args_call \<and> has_param_wo_default pgp then Inr NO_MATCH
         else
           (let nparams = length (pg_params pgp) in
            case bind_params E args kwargs (pg_params pgp) of
              Inl e \<Rightarrow> Inl e
            | Inr None \<Rightarrow> Inr NO_MATCH
            | Inr (Some s) \<Rightarrow>
                (case (if populate_defaults s
                         then populate E edgeql_func (resolved_poly_base_type s) 0
                                (bound_param_args s)
                       else Inr (bound_param_args s, 0)) of
                   Inl e \<Rightarrow> Inl e
                 | Inr (bound, defaults_mask) \<Rightarrow>
                     (case (if edgeql_func then
                              (case std_bytes E of
                                 None \<Rightarrow> Inl ItemNotFoundError
                               | Some bytes_t \<Rightarrow>
                                   (case to_bytes defaults_mask (nparams div 8 + 1) of
                                      Inl e \<Rightarrow> Inl e
                                    | Inr bm \<Rightarrow>
                                        (case decode_ascii bm of
                                           Inl e \<Rightarrow> Inl e
                                         | Inr text \<Rightarrow>
                                             Inr [EnsureSet (BytesConstant text bytes_t)
                                                    bytes_t])))
                            else Inr []) of
                        Inl e \<Rightarrow> Inl e
                      | Inr prefix \<Rightarrow>
                          (let bound_args = prefix @ map snd bound in
                           if is_polymorphic E (return_type func) then
                             (case resolved_poly_base_type s of
                                None \<Rightarrow> Inr NO_MATCH
                              | Some r \<Rightarrow>
                                  Inr \<lparr> bc_func = Some func, bc_args = Some bound_args,
                                        bc_return_type =
                                          Some (to_nonpolymorphic E (return_type func) r),
                                        used_implicit_casts = used_implicit_cast s,
                                        has_empty_variadic = empty_variadic s \<rparr>)
                           else
                             Inr \<lparr> bc_func = Some func, bc_args = Some bound_args,
                                   bc_return_type = Some (return_type func),
                                   used_implicit_casts = used_implicit_cast s,
                                   has_empty_variadic = empty_variadic s \<rparr>))))))"

subsection \<open>Candidate selection in \<open>compile_FunctionCall\<close>\<close>

text \<open>
  The loop \<open>for func in funcs\<close>, with \<open>matched_call\<close> as its state. An exception of a
  binding attempt leaves the loop.
\<close>

fun select_call ::
  "'t env \<Rightarrow> 't call_args \<Rightarrow> 't call_kwargs \<Rightarrow> 't func list \<Rightarrow> 't BoundCall \<Rightarrow>
   error + 't BoundCall" where
  "select_call E args kwargs [] matched_call = Inr matched_call"
| "select_call E args kwargs (func # funcs) matched_call =
     (case try_bind_func_args E args kwargs func of
        Inl e \<Rightarrow> Inl e
      | Inr call \<Rightarrow>
          if bc_args call = None then select_call E args kwargs funcs matched_call
          else if bc_args matched_call = None then select_call E args kwargs funcs call
          else
            (let matched_call' =
                   (if used_implicit_casts matched_call \<and> \<not> used_implicit_casts call
                      then call else matched_call)
             in if args = [] \<and> kwargs = [] then Inl (EdgeQLError NotUnique)
                else select_call E args kwargs funcs matched_call'))"


section \<open>A small type system and overload groups, for concrete instances\<close>

text \<open>
  Types are named by strings. \<open>std::any\<close> is the polymorphic placeholder and resolves to
  the argument type; \<open>std::int32\<close> casts implicitly to \<open>std::int64\<close>.
\<close>

definition ex_env :: "string env" where
  "ex_env = \<lparr> is_polymorphic = (\<lambda>t. t = ''std::any''),
     resolve_polymorphic = (\<lambda>p a. if p = ''std::any'' then Some a else None),
     issubclass = (\<lambda>a p. a = p \<or> p = ''std::any''),
     implicitly_castable_to = (\<lambda>a p. a = ''std::int32'' \<and> p = ''std::int64''),
     get_subtypes = (\<lambda>t. if t = ''array<std::int64>'' then [''std::int64''] else []),
     to_nonpolymorphic = (\<lambda>t r. r),
     type_name = (\<lambda>t. t),
     in_polymorphic_func = False,
     std_bytes = Some ''std::bytes'',
     default_is_empty = (\<lambda>p. False) \<rparr>"

definition mk_param ::
  "string \<Rightarrow> parameter_kind \<Rightarrow> string \<Rightarrow> string option \<Rightarrow> string param" where
  "mk_param n k t d =
     \<lparr> pname = n, pkind = k, ptype = t, ptypemod = SINGLETON, pdefault = d \<rparr>"

definition mk_func ::
  "string param list \<Rightarrow> string param list \<Rightarrow> bool \<Rightarrow> language \<Rightarrow> string \<Rightarrow> string func"
  where
  "mk_func ps pg wo l r =
     \<lparr> params = ps, as_pg_params = \<lparr> pg_params = pg, has_param_wo_default = wo \<rparr>,
       language = l, return_type = r \<rparr>"




text \<open>\<open>g(a: int64) -> str\<close> and \<open>g(a: int32) -> str\<close>, native.\<close>

definition ex_g64 :: "string func" where
  "ex_g64 = (let a = mk_param ''a'' POSITIONAL ''std::int64'' None
             in mk_func [a] [a] True SQL ''std::str'')"

definition ex_g32 :: "string func" where
  "ex_g32 = (let a = mk_param ''a'' POSITIONAL ''std::int32'' None
             in mk_func [a] [a] True SQL ''std::str'')"

text \<open>\<open>w(a: int64, b: int64 = 0, VARIADIC xs: array<int64>) -> str\<close>, native.\<close>

definition ex_w_params :: "string param list" where
  "ex_w_params =
     [mk_param ''a'' POSITIONAL ''std::int64'' None,
      mk_param ''b'' POSITIONAL ''std::int64'' (Some ''0''),
      mk_param ''xs'' VARIADIC ''array<std::int64>'' None]"

definition ex_w :: "string func" where
  "ex_w = mk_func ex_w_params ex_w_params True SQL ''std::str''"



text \<open>
  \<open>f(x: int64, NAMED ONLY y: str = "a") -> str\<close>, implemented in the query language.
  Its parameters in binding order are \<open>y\<close>, \<open>x\<close>: the NAMED ONLY parameters come first.
  \<open>ex_f_declared\<close> is the same function with the parameters left in the order of the
  declaration.
\<close>

definition ex_f :: "string func" where
  "ex_f = (let x = mk_param ''x'' POSITIONAL ''std::int64'' None;
               y = mk_param ''y'' NAMED_ONLY ''std::str'' (Some ''a'')
           in mk_func [x, y] [y, x] True EdgeQL ''std::str'')"

definition ex_f_declared :: "string func" where
  "ex_f_declared = (let x = mk_param ''x'' POSITIONAL ''std::int64'' None;
                        y = mk_param ''y'' NAMED_ONLY ''std::str'' (Some ''a'')
                    in mk_func [x, y] [x, y] True EdgeQL ''std::str'')"

section \<open>A small catalog, for concrete instances\<close>

text \<open>
  Casts refer to types through \<open>from_type\<close> and \<open>to_type\<close>, types to their bases through
  \<open>bases\<close>; no other class has reference-typed fields.
\<close>

definition ex_ext :: ext where
  "ex_ext = \<lparr> get_object_fields =
       (\<lambda>t. if t = Cast then [''from_type'', ''to_type'']
            else if t = Type then [''bases''] else []),
     shortname_from_fullname = (\<lambda>v. v) \<rparr>"

text \<open>The catalog that holds the module \<open>std\<close> (identity 1) and nothing else.\<close>

definition ex_std :: schema where
  "ex_std = \<lparr> modules = [StrV ''std'' \<mapsto> 1],
     id_to_data = [1 \<mapsto> [''name'' \<mapsto> StrV ''std'']],
     id_to_type = [(1, SObj 1 Module)],
     shortname_to_id = Map.empty,
     name_to_id = [StrV ''std'' \<mapsto> 1],
     refs_to = Map.empty,
     generation = 1 \<rparr>"

text \<open>
  Accessors that read the name and the bases from the data of the catalog, and three
  types in module \<open>std\<close>: \<open>A\<close> (identity 10), \<open>B\<close> (11) with base \<open>A\<close>, and \<open>C\<close> (12)
  with base \<open>B\<close>. \<open>ex_A\<close>, \<open>ex_AB\<close> and \<open>ex_ABC\<close> are the catalogs after each is added.
\<close>

definition ex_acc :: accessors where
  "ex_acc = \<lparr> get_virtual_children = (\<lambda>S obj. None),
     material_type = (\<lambda>S obj. obj),
     get_name = (\<lambda>S obj. case id_to_data S (obj_id obj) of
                              None \<Rightarrow> NoneV | Some d \<Rightarrow> data_get d ''name''),
     get_bases = (\<lambda>S obj. case id_to_data S (obj_id obj) of
                               None \<Rightarrow> []
                             | Some d \<Rightarrow>
                                 (case d ''bases'' of
                                    Some (CollV ids) \<Rightarrow>
                                      List.map_filter (map_of (id_to_type S)) ids
                                  | _ \<Rightarrow> [])),
     split_name = (\<lambda>v. case v of
                           QNameV n m \<Rightarrow> (v, Some m, n)
                         | StrV s \<Rightarrow> (v, None, s)
                         | _ \<Rightarrow> (v, None, [])) \<rparr>"

definition ex_A :: schema where
  "ex_A = \<lparr> modules = [StrV ''std'' \<mapsto> 1],
     id_to_data = [1 \<mapsto> [''name'' \<mapsto> StrV ''std''],
                   10 \<mapsto> [''name'' \<mapsto> QNameV ''A'' ''std'', ''bases'' \<mapsto> CollV []]],
     id_to_type = [(1, SObj 1 Module), (10, SObj 10 Type)],
     shortname_to_id = Map.empty,
     name_to_id = [StrV ''std'' \<mapsto> 1, QNameV ''A'' ''std'' \<mapsto> 10],
     refs_to = Map.empty,
     generation = 2 \<rparr>"

definition ex_AB :: schema where
  "ex_AB = \<lparr> modules = [StrV ''std'' \<mapsto> 1],
     id_to_data = [1 \<mapsto> [''name'' \<mapsto> StrV ''std''],
                   10 \<mapsto> [''name'' \<mapsto> QNameV ''A'' ''std'', ''bases'' \<mapsto> CollV []],
                   11 \<mapsto> [''name'' \<mapsto> QNameV ''B'' ''std'', ''bases'' \<mapsto> CollV [10]]],
     id_to_type = [(1, SObj 1 Module), (10, SObj 10 Type), (11, SObj 11 Type)],
     shortname_to_id = Map.empty,
     name_to_id = [StrV ''std'' \<mapsto> 1, QNameV ''A'' ''std'' \<mapsto> 10,
                   QNameV ''B'' ''std'' \<mapsto> 11],
     refs_to = [10 \<mapsto> [(Type, ''bases'') \<mapsto> {11}]],
     generation = 3 \<rparr>"

definition ex_ABC :: schema where
  "ex_ABC = \<lparr> modules = [StrV ''std'' \<mapsto> 1],
     id_to_data = [1 \<mapsto> [''name'' \<mapsto> StrV ''std''],
                   10 \<mapsto> [''name'' \<mapsto> QNameV ''A'' ''std'', ''bases'' \<mapsto> CollV []],
                   11 \<mapsto> [''name'' \<mapsto> QNameV ''B'' ''std'', ''bases'' \<mapsto> CollV [10]],
                   12 \<mapsto> [''name'' \<mapsto> QNameV ''C'' ''std'', ''bases'' \<mapsto> CollV [11]]],
     id_to_type = [(1, SObj 1 Module), (10, SObj 10 Type), (11, SObj 11 Type),
                   (12, SObj 12 Type)],
     shortname_to_id = Map.empty,
     name_to_id = [StrV ''std'' \<mapsto> 1, QNameV ''A'' ''std'' \<mapsto> 10,
                   QNameV ''B'' ''std'' \<mapsto> 11, QNameV ''C'' ''std'' \<mapsto> 12],
     refs_to = [10 \<mapsto> [(Type, ''bases'') \<mapsto> {11}],
                11 \<mapsto> [(Type, ''bases'') \<mapsto> {12}]],
     generation = 4 \<rparr>"


section \<open>Properties of the catalog\<close>

text \<open>
  C1. When \<open>fields.name\<close> is already a key of \<open>name_to_id\<close>, \<open>add\<close> fails with the
  naming-conflict error. The operation is a function of the catalog value: the failure
  carries no catalog, and \<open>S\<close>, being a value, is what it was, so every lookup on it
  gives what it gave before.
\<close>

theorem add_name_conflict:
  "data ''name'' = Some name \<Longrightarrow> name \<in> dom (name_to_id S) \<Longrightarrow>
   add X S oid scls data = Inl (SchemaError AlreadyPresent)"
  by (simp add: add_def)

text \<open>
  C10. \<open>unset_field\<close> on an identity that is not in the catalog, or on a field other than
  \<open>name\<close> that the object's data does not hold, returns the catalog it was given, and
  raises nothing.
\<close>

theorem unset_obj_field_missing:
  "id_to_data S oid = None \<or>
   (\<exists>data. id_to_data S oid = Some data \<and> field \<noteq> ''name'' \<and> data field = None) \<Longrightarrow>
   unset_obj_field X S oid field = Inr S"
  by (auto simp: unset_obj_field_def map_delete_def Let_def dom_def)


lemma ex_std_add:
  "add ex_ext empty_schema 1 (SObj 1 Module) [''name'' \<mapsto> StrV ''std''] = Inr ex_std"
  by (simp add: add_def update_obj_name_def update_refs_to_def ex_ext_def empty_schema_def
        replace_def ex_std_def Let_def)

theorem add_name_conflict_witness:
  "[''name'' \<mapsto> StrV ''std''] ''name'' = Some (StrV ''std'') \<and>
   StrV ''std'' \<in> dom (name_to_id ex_std) \<and>
   add ex_ext ex_std 2 (SObj 2 Module) [''name'' \<mapsto> StrV ''std''] =
     Inl (SchemaError AlreadyPresent)"
  using add_name_conflict[of "[''name'' \<mapsto> StrV ''std'']" "StrV ''std''" ex_std ex_ext 2
      "SObj 2 Module"]
  by (simp add: ex_std_def)

theorem unset_obj_field_missing_witness:
  "id_to_data ex_std 9 = None \<and>
   unset_obj_field ex_ext ex_std 9 ''bases'' = Inr ex_std \<and>
   id_to_data ex_std 1 = Some [''name'' \<mapsto> StrV ''std''] \<and>
   ''bases'' \<noteq> ''name'' \<and> [''name'' \<mapsto> StrV ''std''] ''bases'' = None \<and>
   unset_obj_field ex_ext ex_std 1 ''bases'' = Inr ex_std"
  using unset_obj_field_missing[of ex_std 9 "''bases''" ex_ext]
    unset_obj_field_missing[of ex_std 1 "''bases''" ex_ext]
  by (simp add: ex_std_def)

subsection \<open>The reverse-reference index\<close>

lemmas catalog_defs = add_def update_obj_name_def update_refs_to_def update_refs_field_def
  field_ids_def ref_ids_def truthy_def ids_list_def ids_minus_def replace_def Let_def
  map_delete_def alist_delete_def data_get_def

lemma ex_A_add:
  "add ex_ext ex_std 10 (SObj 10 Type)
     [''name'' \<mapsto> QNameV ''A'' ''std'', ''bases'' \<mapsto> CollV []] = Inr ex_A"
  by (simp add: catalog_defs ex_ext_def ex_std_def ex_A_def)

lemma ex_AB_add:
  "add ex_ext ex_A 11 (SObj 11 Type)
     [''name'' \<mapsto> QNameV ''B'' ''std'', ''bases'' \<mapsto> CollV [10]] = Inr ex_AB"
  by (simp add: catalog_defs ex_ext_def ex_A_def ex_AB_def)

lemma ex_ABC_add:
  "add ex_ext ex_AB 12 (SObj 12 Type)
     [''name'' \<mapsto> QNameV ''C'' ''std'', ''bases'' \<mapsto> CollV [11]] = Inr ex_ABC"
  by (simp add: catalog_defs ex_ext_def ex_AB_def ex_ABC_def)


lemma add_refs_entry:
  "refs_entry (add_refs key ids xs mm) r k =
     (if k = key \<and> r \<in> set xs then refs_entry mm r k \<union> ids else refs_entry mm r k)"
proof (induction xs arbitrary: mm)
  case Nil
  then show ?case by simp
next
  case (Cons x xs)
  let ?mm1 = "(case mm x of
          None \<Rightarrow> mm(x \<mapsto> [key \<mapsto> ids])
        | Some refs \<Rightarrow>
            (let field_refs = (case refs key of None \<Rightarrow> ids | Some fr \<Rightarrow> fr \<union> ids)
             in mm(x \<mapsto> refs(key \<mapsto> field_refs))))"
  have 1: "refs_entry ?mm1 r k =
       (if k = key \<and> r = x then refs_entry mm r k \<union> ids else refs_entry mm r k)"
    by (auto simp: refs_entry_def Let_def split: option.splits)
  have "refs_entry (add_refs key ids (x # xs) mm) r k = refs_entry (add_refs key ids xs ?mm1) r k"
    by simp
  also have "\<dots> = (if k = key \<and> r \<in> set xs then refs_entry ?mm1 r k \<union> ids
                    else refs_entry ?mm1 r k)"
    by (rule Cons.IH)
  finally show ?case unfolding 1 by auto
qed

lemma add_refs_other:
  "r \<notin> set xs \<Longrightarrow> add_refs key ids xs mm r = mm r"
  by (induction xs arbitrary: mm) (auto simp: Let_def split: option.splits)

lemma del_refs_entry:
  "del_refs key ids xs mm = Inr mm' \<Longrightarrow>
   refs_entry mm' r k =
     (if k = key \<and> r \<in> set xs then refs_entry mm r k - ids else refs_entry mm r k)"
proof (induction xs arbitrary: mm)
  case Nil
  then show ?case by simp
next
  case (Cons x xs)
  from Cons.prems obtain refs fr where mx: "mm x = Some refs" and rk: "refs key = Some fr"
    by (auto split: option.splits)
  let ?mm1 = "if fr - ids = {} then mm(x \<mapsto> refs(key := None))
              else mm(x \<mapsto> refs(key \<mapsto> fr - ids))"
  from Cons.prems mx rk have d: "del_refs key ids xs ?mm1 = Inr mm'"
    by (auto simp: Let_def map_delete_def split: if_splits)
  have 1: "refs_entry ?mm1 r k =
       (if k = key \<and> r = x then refs_entry mm r k - ids else refs_entry mm r k)"
    using mx rk by (auto simp: refs_entry_def split: option.splits)
  from Cons.IH[OF d] show ?case unfolding 1 by auto
qed

lemma del_refs_other:
  "del_refs key ids xs mm = Inr mm' \<Longrightarrow> r \<notin> set xs \<Longrightarrow> mm' r = mm r"
proof (induction xs arbitrary: mm)
  case Nil
  then show ?case by simp
next
  case (Cons x xs)
  from Cons.prems obtain refs fr where mx: "mm x = Some refs" and rk: "refs key = Some fr"
    by (auto split: option.splits)
  let ?mm1 = "if fr - ids = {} then mm(x \<mapsto> refs(key := None))
              else mm(x \<mapsto> refs(key \<mapsto> fr - ids))"
  from Cons.prems mx rk have d: "del_refs key ids xs ?mm1 = Inr mm'"
    by (auto simp: Let_def map_delete_def split: if_splits)
  from Cons.IH[OF d] Cons.prems(2) show ?case by (auto split: if_splits)
qed

lemma field_ids_set:
  "field_ids data f = Inr ids \<Longrightarrow> set (ids_list ids) = field_ref_set data f"
  by (auto simp: field_ids_def field_ref_set_def stores_ref_def ref_ids_def ids_list_def
           split: option.splits fval.splits sum.splits)

lemma truthy_None: "\<not> truthy None"
  by (simp add: truthy_def)

lemma truthy_ids_list: "truthy ids = (ids_list ids \<noteq> [])"
  by (simp add: truthy_def ids_list_def split: option.splits)

lemma update_refs_field_entry:
  assumes "update_refs_field st ids orig new f mm = Inr mm'"
  shows "refs_entry mm' r k =
     (if k = (st, f) \<and> r \<in> field_ref_set new f - field_ref_set orig f
        then refs_entry mm r k \<union> ids
      else if k = (st, f) \<and> r \<in> field_ref_set orig f - field_ref_set new f
        then refs_entry mm r k - ids
      else refs_entry mm r k)"
proof -
  from assms obtain n o' where n: "field_ids new f = Inr n" and o: "field_ids orig f = Inr o'"
    by (auto simp: update_refs_field_def split: sum.splits)
  note N = field_ids_set[OF n] and O = field_ids_set[OF o]
  let ?N = "field_ref_set new f" and ?O = "field_ref_set orig f"
  show ?thesis
  proof (cases "\<not> truthy n \<and> \<not> truthy o'")
    case True
    with assms n o have "mm' = mm" by (simp add: update_refs_field_def)
    moreover from True N O have "?N = {}" "?O = {}" by (simp_all add: truthy_ids_list)
    ultimately show ?thesis by simp
  next
    case False
    define new_ids where "new_ids =
       (if truthy n \<and> truthy o' then Some (ids_minus (ids_list n) (ids_list o'))
        else if truthy n then n else None)"
    define old_ids where "old_ids =
       (if truthy n \<and> truthy o' then Some (ids_minus (ids_list o') (ids_list n))
        else if truthy n then None else o')"
    define mm1 where "mm1 =
       (if truthy new_ids then add_refs (st, f) ids (ids_list new_ids) mm else mm)"
    have nset: "set (ids_list new_ids) = ?N - ?O"
      using N O False
      by (auto simp: new_ids_def ids_minus_def truthy_ids_list ids_list_def)
    have oset: "set (ids_list old_ids) = ?O - ?N"
      using N O False
      by (auto simp: old_ids_def ids_minus_def truthy_ids_list ids_list_def)
    have e1: "refs_entry mm1 r k =
       (if k = (st, f) \<and> r \<in> ?N - ?O then refs_entry mm r k \<union> ids else refs_entry mm r k)"
    proof (cases "truthy new_ids")
      case True
      then show ?thesis unfolding mm1_def using nset by (simp add: add_refs_entry)
    next
      case False
      then have "?N - ?O = {}" using nset by (simp add: truthy_ids_list)
      with False show ?thesis unfolding mm1_def by auto
    qed
    have "update_refs_field st ids orig new f mm =
            (if truthy old_ids then del_refs (st, f) ids (ids_list old_ids) mm1 else Inr mm1)"
      unfolding update_refs_field_def new_ids_def old_ids_def mm1_def
      using n o False by (auto simp: Let_def truthy_None)
    with assms have res: "(if truthy old_ids then del_refs (st, f) ids (ids_list old_ids) mm1
                else Inr mm1) = Inr mm'"
      by simp
    have e2: "refs_entry mm' r k =
       (if k = (st, f) \<and> r \<in> ?O - ?N then refs_entry mm1 r k - ids else refs_entry mm1 r k)"
    proof (cases "truthy old_ids")
      case True
      with res have "del_refs (st, f) ids (ids_list old_ids) mm1 = Inr mm'" by simp
      from del_refs_entry[OF this] oset show ?thesis by simp
    next
      case False
      then have "?O - ?N = {}" using oset by (simp add: truthy_ids_list)
      with False res show ?thesis by auto
    qed
    show ?thesis unfolding e2 e1 by auto
  qed
qed

lemma update_refs_field_other:
  assumes "update_refs_field st ids orig new f mm = Inr mm'"
    and "r \<notin> field_ref_set new f - field_ref_set orig f"
    and "r \<notin> field_ref_set orig f - field_ref_set new f"
  shows "mm' r = mm r"
proof -
  from assms(1) obtain n o' where n: "field_ids new f = Inr n" and o: "field_ids orig f = Inr o'"
    by (auto simp: update_refs_field_def split: sum.splits)
  note N = field_ids_set[OF n] and O = field_ids_set[OF o]
  let ?N = "field_ref_set new f" and ?O = "field_ref_set orig f"
  show ?thesis
  proof (cases "\<not> truthy n \<and> \<not> truthy o'")
    case True
    with assms(1) n o show ?thesis by (simp add: update_refs_field_def)
  next
    case False
    define new_ids where "new_ids =
       (if truthy n \<and> truthy o' then Some (ids_minus (ids_list n) (ids_list o'))
        else if truthy n then n else None)"
    define old_ids where "old_ids =
       (if truthy n \<and> truthy o' then Some (ids_minus (ids_list o') (ids_list n))
        else if truthy n then None else o')"
    define mm1 where "mm1 =
       (if truthy new_ids then add_refs (st, f) ids (ids_list new_ids) mm else mm)"
    have nset: "set (ids_list new_ids) = ?N - ?O"
      using N O False
      by (auto simp: new_ids_def ids_minus_def truthy_ids_list ids_list_def)
    have oset: "set (ids_list old_ids) = ?O - ?N"
      using N O False
      by (auto simp: old_ids_def ids_minus_def truthy_ids_list ids_list_def)
    have e1: "mm1 r = mm r"
      unfolding mm1_def using nset assms(2) by (simp add: add_refs_other)
    have "update_refs_field st ids orig new f mm =
            (if truthy old_ids then del_refs (st, f) ids (ids_list old_ids) mm1 else Inr mm1)"
      unfolding update_refs_field_def new_ids_def old_ids_def mm1_def
      using n o False by (auto simp: Let_def truthy_None)
    with assms(1) have res: "(if truthy old_ids then del_refs (st, f) ids (ids_list old_ids) mm1
                else Inr mm1) = Inr mm'"
      by simp
    have "mm' r = mm1 r"
    proof (cases "truthy old_ids")
      case True
      with res have "del_refs (st, f) ids (ids_list old_ids) mm1 = Inr mm'" by simp
      from del_refs_other[OF this] oset assms(3) show ?thesis by simp
    next
      case False
      with res show ?thesis by simp
    qed
    with e1 show ?thesis by simp
  qed
qed


lemma update_refs_fields_entry:
  "update_refs_fields st ids orig new fs mm = Inr mm' \<Longrightarrow>
   refs_entry mm' r (st', f) =
     (if st' = st \<and> f \<in> set fs \<and> r \<in> field_ref_set new f - field_ref_set orig f
        then refs_entry mm r (st', f) \<union> ids
      else if st' = st \<and> f \<in> set fs \<and> r \<in> field_ref_set orig f - field_ref_set new f
        then refs_entry mm r (st', f) - ids
      else refs_entry mm r (st', f))"
proof (induction fs arbitrary: mm)
  case Nil
  then show ?case by simp
next
  case (Cons f0 fs)
  from Cons.prems have "\<exists>mm1. update_refs_field st ids orig new f0 mm = Inr mm1 \<and>
     update_refs_fields st ids orig new fs mm1 = Inr mm'"
    by (cases "update_refs_field st ids orig new f0 mm") simp_all
  then obtain mm1 where
    1: "update_refs_field st ids orig new f0 mm = Inr mm1"
    and 2: "update_refs_fields st ids orig new fs mm1 = Inr mm'"
    by blast
  define A where "A = refs_entry mm r (st', f)"
  define B where "B = refs_entry mm1 r (st', f)"
  define C where "C = refs_entry mm' r (st', f)"
  define Nw where "Nw = field_ref_set new f"
  define Od where "Od = field_ref_set orig f"
  have a: "C = (if st' = st \<and> f \<in> set fs \<and> r \<in> Nw - Od then B \<union> ids
                else if st' = st \<and> f \<in> set fs \<and> r \<in> Od - Nw then B - ids else B)"
    unfolding A_def B_def C_def Nw_def Od_def by (rule Cons.IH[OF 2])
  note e = update_refs_field_entry[OF 1, of r "(st', f)"]
  have b: "B = (if st' = st \<and> f = f0 \<and> r \<in> Nw - Od then A \<union> ids
                else if st' = st \<and> f = f0 \<and> r \<in> Od - Nw then A - ids else A)"
  proof (cases "st' = st \<and> f = f0")
    case True
    with e show ?thesis unfolding A_def B_def Nw_def Od_def by simp
  next
    case False
    with e have "B = A" unfolding A_def B_def by auto
    with False show ?thesis by auto
  qed
  have "C = (if st' = st \<and> f \<in> set (f0 # fs) \<and> r \<in> Nw - Od then A \<union> ids
             else if st' = st \<and> f \<in> set (f0 # fs) \<and> r \<in> Od - Nw then A - ids else A)"
  proof (cases "st' = st \<and> f = f0")
    case True
    then show ?thesis unfolding a b by (cases "r \<in> Nw"; cases "r \<in> Od"; cases "f \<in> set fs") auto
  next
    case False
    then have "B = A" using b by auto
    with False show ?thesis unfolding a by auto
  qed
  then show ?case unfolding A_def B_def C_def Nw_def Od_def .
qed

lemma update_refs_fields_other:
  "update_refs_fields st ids orig new fs mm = Inr mm' \<Longrightarrow>
   \<forall>f\<in>set fs. r \<notin> field_ref_set new f - field_ref_set orig f \<and>
              r \<notin> field_ref_set orig f - field_ref_set new f \<Longrightarrow>
   mm' r = mm r"
proof (induction fs arbitrary: mm)
  case Nil
  then show ?case by simp
next
  case (Cons f0 fs)
  from Cons.prems(1) obtain mm1 where
    1: "update_refs_field st ids orig new f0 mm = Inr mm1"
    and 2: "update_refs_fields st ids orig new fs mm1 = Inr mm'"
    by (auto split: sum.splits)
  from Cons.prems(2) have a: "r \<notin> field_ref_set new f0 - field_ref_set orig f0"
    and b: "r \<notin> field_ref_set orig f0 - field_ref_set new f0"
    and c: "\<forall>f\<in>set fs. r \<notin> field_ref_set new f - field_ref_set orig f \<and>
              r \<notin> field_ref_set orig f - field_ref_set new f"
    by simp_all
  from Cons.IH[OF 2 c] update_refs_field_other[OF 1 a b] show ?case by simp
qed

lemma update_refs_to_entry:
  assumes "update_refs_to X S scls orig new = Inr refs'"
  shows "refs_entry refs' r (st, f) =
     (if st = obj_type scls \<and> f \<in> set (get_object_fields X st) \<and>
         r \<in> field_ref_set new f - field_ref_set orig f
        then refs_entry (refs_to S) r (st, f) \<union> {obj_id scls}
      else if st = obj_type scls \<and> f \<in> set (get_object_fields X st) \<and>
              r \<in> field_ref_set orig f - field_ref_set new f
        then refs_entry (refs_to S) r (st, f) - {obj_id scls}
      else refs_entry (refs_to S) r (st, f))"
proof (cases "get_object_fields X (obj_type scls) = []")
  case True
  with assms have "refs' = refs_to S" by (simp add: update_refs_to_def Let_def)
  with True show ?thesis by auto
next
  case False
  with assms have "update_refs_fields (obj_type scls) {obj_id scls} orig new
      (get_object_fields X (obj_type scls)) (refs_to S) = Inr refs'"
    by (simp add: update_refs_to_def Let_def)
  note e = update_refs_fields_entry[OF this, of r st f]
  show ?thesis
  proof (cases "st = obj_type scls")
    case True
    with e show ?thesis by simp
  next
    case False
    with e show ?thesis by simp
  qed
qed

lemma update_refs_to_other:
  assumes "update_refs_to X S scls orig new = Inr refs'"
    and "\<forall>f\<in>set (get_object_fields X (obj_type scls)).
           r \<notin> field_ref_set new f - field_ref_set orig f \<and>
           r \<notin> field_ref_set orig f - field_ref_set new f"
  shows "refs' r = refs_to S r"
proof (cases "get_object_fields X (obj_type scls) = []")
  case True
  with assms(1) show ?thesis by (auto simp: update_refs_to_def Let_def)
next
  case False
  with assms(1) have "update_refs_fields (obj_type scls) {obj_id scls} orig new
      (get_object_fields X (obj_type scls)) (refs_to S) = Inr refs'"
    by (simp add: update_refs_to_def Let_def)
  from update_refs_fields_other[OF this assms(2)] show ?thesis .
qed

lemma refs_index_ok_refers:
  "refs_index_ok X S =
     ((\<forall>a obj. map_of (id_to_type S) a = Some obj \<longrightarrow> obj_id obj = a) \<and>
      (\<forall>b st f. refs_entry (refs_to S) b (st, f) =
         {a. f \<in> set (get_object_fields X st) \<and>
             refers (id_to_type S) (id_to_data S) a st f b}))"
  by (auto simp: refs_index_ok_def refers_def)

lemma refs_index_step:
  assumes inv: "refs_index_ok X S"
    and wf': "\<forall>a obj. map_of T' a = Some obj \<longrightarrow> obj_id obj = a"
    and refs: "update_refs_to X S scls orig new = Inr refs'"
    and other: "\<forall>a st f r. a \<noteq> obj_id scls \<longrightarrow>
        refers T' D' a st f r = refers (id_to_type S) (id_to_data S) a st f r"
    and own_other: "\<forall>st f r. st \<noteq> obj_type scls \<longrightarrow>
        refers T' D' (obj_id scls) st f r =
        refers (id_to_type S) (id_to_data S) (obj_id scls) st f r"
    and own: "\<forall>f r. f \<in> set (get_object_fields X (obj_type scls)) \<longrightarrow>
        (r \<in> field_ref_set new f - field_ref_set orig f \<longrightarrow>
           refers T' D' (obj_id scls) (obj_type scls) f r) \<and>
        (r \<in> field_ref_set orig f - field_ref_set new f \<longrightarrow>
           \<not> refers T' D' (obj_id scls) (obj_type scls) f r) \<and>
        (r \<notin> field_ref_set new f - field_ref_set orig f \<and>
         r \<notin> field_ref_set orig f - field_ref_set new f \<longrightarrow>
           refers T' D' (obj_id scls) (obj_type scls) f r =
           refers (id_to_type S) (id_to_data S) (obj_id scls) (obj_type scls) f r)"
  shows "refs_index_ok X
           (S\<lparr>id_to_type := T', id_to_data := D', refs_to := refs'\<rparr>)"
proof -
  from inv have old: "\<And>b st f. refs_entry (refs_to S) b (st, f) =
         {a. f \<in> set (get_object_fields X st) \<and>
             refers (id_to_type S) (id_to_data S) a st f b}"
    by (simp add: refs_index_ok_refers)
  have "refs_entry refs' b (st, f) =
         {a. f \<in> set (get_object_fields X st) \<and> refers T' D' a st f b}" for b st f
  proof (rule set_eqI)
    fix a
    note e = update_refs_to_entry[OF refs, of b st f]
    show "(a \<in> refs_entry refs' b (st, f)) =
          (a \<in> {a. f \<in> set (get_object_fields X st) \<and> refers T' D' a st f b})"
    proof (cases "a = obj_id scls")
      case False
      with other have "refers T' D' a st f b = refers (id_to_type S) (id_to_data S) a st f b"
        by simp
      with False e old[of b st f] show ?thesis by auto
    next
      case True
      show ?thesis
      proof (cases "st = obj_type scls \<and> f \<in> set (get_object_fields X st)")
        case False
        with e have "refs_entry refs' b (st, f) = refs_entry (refs_to S) b (st, f)" by auto
        moreover have "f \<in> set (get_object_fields X st) \<Longrightarrow>
           refers T' D' a st f b = refers (id_to_type S) (id_to_data S) a st f b"
          using False True own_other by auto
        ultimately show ?thesis using old[of b st f] by auto
      next
        case st: True
        with own have o: "(b \<in> field_ref_set new f - field_ref_set orig f \<longrightarrow>
           refers T' D' (obj_id scls) (obj_type scls) f b) \<and>
        (b \<in> field_ref_set orig f - field_ref_set new f \<longrightarrow>
           \<not> refers T' D' (obj_id scls) (obj_type scls) f b) \<and>
        (b \<notin> field_ref_set new f - field_ref_set orig f \<and>
         b \<notin> field_ref_set orig f - field_ref_set new f \<longrightarrow>
           refers T' D' (obj_id scls) (obj_type scls) f b =
           refers (id_to_type S) (id_to_data S) (obj_id scls) (obj_type scls) f b)"
          by blast
        consider (n) "b \<in> field_ref_set new f - field_ref_set orig f"
          | (o) "b \<in> field_ref_set orig f - field_ref_set new f"
          | (u) "b \<notin> field_ref_set new f - field_ref_set orig f"
                "b \<notin> field_ref_set orig f - field_ref_set new f"
          by blast
        then show ?thesis
        proof cases
          case n
          with e st o True show ?thesis by auto
        next
          case o
          with e st \<open>(b \<in> field_ref_set new f - field_ref_set orig f \<longrightarrow> _) \<and> _\<close> True
          show ?thesis by auto
        next
          case u
          with e st have "refs_entry refs' b (st, f) = refs_entry (refs_to S) b (st, f)"
            by auto
          with u o st True old[of b st f] show ?thesis by auto
        qed
      qed
    qed
  qed
  with wf' show ?thesis by (simp add: refs_index_ok_refers)
qed

lemma replace_fields:
  "id_to_data (replace S (Some d) t n s m (Some r)) = d"
  "refs_to (replace S (Some d) t n s m (Some r)) = r"
  "id_to_type (replace S (Some d) (Some t') n s m (Some r)) = t'"
  "id_to_type (replace S (Some d) None n s m (Some r)) = id_to_type S"
  by (simp_all add: replace_def)

lemma add_components:
  assumes "add X S oid scls data = Inr S'"
  shows "id_to_data S' = (id_to_data S)(oid \<mapsto> data) \<and>
   id_to_type S' = AList.update oid scls (id_to_type S) \<and>
   update_refs_to X S scls None (Some data) = Inr (refs_to S')"
proof -
  from assms obtain name where n: "data ''name'' = Some name"
    by (cases "data ''name''") (simp_all add: add_def)
  from assms n have nn: "name \<notin> dom (name_to_id S)"
    by (auto simp: add_def split: if_splits)
  from assms n nn obtain n2i s2i where u: "update_obj_name X S oid scls NoneV name = Inr (n2i, s2i)"
    by (cases "update_obj_name X S oid scls NoneV name") (auto simp: add_def)
  from assms n nn u obtain refs where r: "update_refs_to X S scls None (Some data) = Inr refs"
    by (cases "update_refs_to X S scls None (Some data)") (auto simp: add_def)
  from assms n nn u r have "\<exists>m. S' = replace S (Some ((id_to_data S)(oid \<mapsto> data)))
      (Some (AList.update oid scls (id_to_type S))) (Some n2i) (Some s2i) m (Some refs)"
    by (auto simp: add_def Let_def split: if_splits fval.splits)
  then obtain m where "S' = replace S (Some ((id_to_data S)(oid \<mapsto> data)))
      (Some (AList.update oid scls (id_to_type S))) (Some n2i) (Some s2i) m (Some refs)"
    by blast
  with r show ?thesis by (simp add: replace_fields)
qed


lemma delete_components:
  assumes "delete X S obj = Inr S'"
  shows "\<exists>data. id_to_data S (obj_id obj) = Some data \<and>
     id_to_data S' = (id_to_data S)(obj_id obj := None) \<and>
     id_to_type S' = AList.delete (obj_id obj) (id_to_type S) \<and>
     update_refs_to X S obj (Some data) None = Inr (refs_to S')"
proof -
  from assms obtain data where d: "id_to_data S (obj_id obj) = Some data"
    by (cases "id_to_data S (obj_id obj)") (simp_all add: delete_def)
  from assms d obtain name where n: "data ''name'' = Some name"
    by (cases "data ''name''") (simp_all add: delete_def)
  define mres where "mres =
     (if obj_type obj = Module
        then (case map_delete (modules S) name of Inl e \<Rightarrow> Inl e | Inr m \<Rightarrow> Inr (Some m))
      else Inr None)"
  from assms d n obtain mods where m: "mres = Inr mods"
    unfolding mres_def
    by (cases "if obj_type obj = Module
        then (case map_delete (modules S) name of Inl e \<Rightarrow> Inl e | Inr m \<Rightarrow> Inr (Some m))
      else Inr None") (simp_all add: delete_def)
  from assms d n m obtain scls where t: "map_of (id_to_type S) (obj_id obj) = Some scls"
    unfolding mres_def
    by (cases "map_of (id_to_type S) (obj_id obj)") (simp_all add: delete_def)
  from assms d n m t obtain n2i s2i where
    u: "update_obj_name X S (obj_id obj) scls name NoneV = Inr (n2i, s2i)"
    unfolding mres_def
    by (cases "update_obj_name X S (obj_id obj) scls name NoneV") (auto simp: delete_def)
  from assms d n m t u obtain refs where
    r: "update_refs_to X S obj (Some data) None = Inr refs"
    unfolding mres_def
    by (cases "update_refs_to X S obj (Some data) None") (auto simp: delete_def)
  have md: "map_delete (id_to_data S) (obj_id obj) = Inr ((id_to_data S)(obj_id obj := None))"
    using d by (simp add: map_delete_def dom_def)
  have ad: "alist_delete (id_to_type S) (obj_id obj) =
            Inr (AList.delete (obj_id obj) (id_to_type S))"
    using t by (simp add: alist_delete_def)
  from assms d n m t u r md ad have
    "S' = replace S (Some ((id_to_data S)(obj_id obj := None)))
       (Some (AList.delete (obj_id obj) (id_to_type S))) (Some n2i) (Some s2i) mods (Some refs)"
    unfolding mres_def by (simp add: delete_def)
  with d r show ?thesis by (simp add: replace_fields)
qed

lemma set_obj_field_components:
  assumes "set_obj_field X S oid field v = Inr S'"
  shows "\<exists>data scls. id_to_data S oid = Some data \<and> map_of (id_to_type S) oid = Some scls \<and>
     id_to_data S' = (id_to_data S)(oid \<mapsto> data(field \<mapsto> v)) \<and>
     id_to_type S' = id_to_type S \<and>
     update_refs_to X S scls
       (Some (case data field of Some ov \<Rightarrow> [field \<mapsto> ov] | None \<Rightarrow> Map.empty))
       (Some [field \<mapsto> v]) = Inr (refs_to S')"
proof -
  from assms obtain data where d: "id_to_data S oid = Some data"
    by (cases "id_to_data S oid") (simp_all add: set_obj_field_def)
  define nres where "nres =
     (if field = ''name'' then
        (case map_of (id_to_type S) oid of
           None \<Rightarrow> Inl KeyError
         | Some scls \<Rightarrow>
             (case update_obj_name X S oid scls (data_get data ''name'') v of
                Inl e \<Rightarrow> Inl e
              | Inr (n2i, s2i) \<Rightarrow> Inr (Some n2i, Some s2i)))
      else Inr (None, None))"
  from assms d obtain n2i s2i where n: "nres = Inr (n2i, s2i)"
    unfolding nres_def
    by (cases "if field = ''name'' then
        (case map_of (id_to_type S) oid of
           None \<Rightarrow> Inl KeyError
         | Some scls \<Rightarrow>
             (case update_obj_name X S oid scls (data_get data ''name'') v of
                Inl e \<Rightarrow> Inl e
              | Inr (n2i, s2i) \<Rightarrow> Inr (Some n2i, Some s2i)))
      else Inr (None, None)") (auto simp: set_obj_field_def)
  from assms d n obtain scls where t: "map_of (id_to_type S) oid = Some scls"
    unfolding nres_def
    by (cases "map_of (id_to_type S) oid") (simp_all add: set_obj_field_def Let_def)
  from assms d n t obtain refs where
    r: "update_refs_to X S scls
       (Some (case data field of Some ov \<Rightarrow> [field \<mapsto> ov] | None \<Rightarrow> Map.empty))
       (Some [field \<mapsto> v]) = Inr refs"
    unfolding nres_def
    by (cases "update_refs_to X S scls
       (Some (case data field of Some ov \<Rightarrow> [field \<mapsto> ov] | None \<Rightarrow> Map.empty))
       (Some [field \<mapsto> v])") (simp_all add: set_obj_field_def Let_def)
  from assms d n t r have
    "S' = replace S (Some ((id_to_data S)(oid \<mapsto> data(field \<mapsto> v)))) None n2i s2i None
            (Some refs)"
    unfolding nres_def by (simp add: set_obj_field_def Let_def)
  with d t r show ?thesis by (simp add: replace_fields)
qed

lemma unset_obj_field_components:
  assumes "unset_obj_field X S oid field = Inr S'"
  shows "(S' = S \<and> (case id_to_data S oid of None \<Rightarrow> True | Some data \<Rightarrow> data field = None)) \<or>
   (\<exists>data scls ov. id_to_data S oid = Some data \<and> map_of (id_to_type S) oid = Some scls \<and>
     data field = Some ov \<and>
     id_to_data S' = (id_to_data S)(oid \<mapsto> data(field := None)) \<and>
     id_to_type S' = id_to_type S \<and>
     update_refs_to X S scls (Some [field \<mapsto> ov]) None = Inr (refs_to S'))"
proof (cases "id_to_data S oid")
  case None
  with assms show ?thesis by (simp add: unset_obj_field_def)
next
  case (Some data)
  define pre where "pre =
     (if field = ''name'' \<and> data_get data ''name'' \<noteq> NoneV then
        (case map_of (id_to_type S) oid of
           None \<Rightarrow> Inl KeyError
         | Some scls \<Rightarrow>
             (case update_obj_name X S oid scls (data_get data ''name'') NoneV of
                Inl e \<Rightarrow> Inl e
              | Inr (n2i, s2i) \<Rightarrow>
                  (case map_delete data field of
                     Inl e \<Rightarrow> Inl e
                   | Inr new_data \<Rightarrow> Inr (Some (Some n2i, Some s2i, new_data)))))
      else
        (case map_delete data field of
           Inl e \<Rightarrow> Inr None
         | Inr new_data \<Rightarrow> Inr (Some (None, None, new_data))))"
  have unf: "unset_obj_field X S oid field =
     (case pre of
        Inl e \<Rightarrow> Inl e
      | Inr None \<Rightarrow> Inr S
      | Inr (Some (n2i, s2i, new_data)) \<Rightarrow>
          (let i2d = (id_to_data S)(oid \<mapsto> new_data) in
           case map_of (id_to_type S) oid of
             None \<Rightarrow> Inl KeyError
           | Some scls \<Rightarrow>
               (case data field of
                  None \<Rightarrow> Inl KeyError
                | Some ov \<Rightarrow>
                    (case update_refs_to X S scls (Some [field \<mapsto> ov]) None of
                       Inl e \<Rightarrow> Inl e
                     | Inr refs \<Rightarrow>
                         Inr (replace S (Some i2d) None n2i s2i None (Some refs))))))"
    unfolding pre_def using Some by (simp add: unset_obj_field_def Let_def)
  from assms unf obtain p where p: "pre = Inr p"
    by (cases pre) simp_all
  show ?thesis
  proof (cases p)
    case None
    with p have "data field = None"
      unfolding pre_def
      by (auto simp: map_delete_def split: if_splits option.splits sum.splits prod.splits)
    with None assms unf p \<open>id_to_data S oid = Some data\<close> show ?thesis by simp
  next
    case (Some trip)
    obtain n2i s2i new_data where trip: "trip = (n2i, s2i, new_data)" by (cases trip)
    have nd: "new_data = data(field := None)"
      using p Some trip unfolding pre_def
      by (auto simp: map_delete_def split: if_splits option.splits sum.splits prod.splits)
    from assms unf p Some trip obtain scls where t: "map_of (id_to_type S) oid = Some scls"
      by (cases "map_of (id_to_type S) oid") (simp_all add: Let_def)
    from assms unf p Some trip t obtain ov where ov: "data field = Some ov"
      by (cases "data field") (simp_all add: Let_def)
    from assms unf p Some trip t ov obtain refs where
      r: "update_refs_to X S scls (Some [field \<mapsto> ov]) None = Inr refs"
      by (cases "update_refs_to X S scls (Some [field \<mapsto> ov]) None") (simp_all add: Let_def)
    from assms unf p Some trip t ov r have
      "S' = replace S (Some ((id_to_data S)(oid \<mapsto> new_data))) None n2i s2i None (Some refs)"
      by (simp add: Let_def)
    with \<open>id_to_data S oid = Some data\<close> t ov r nd show ?thesis by (simp add: replace_fields)
  qed
qed

lemma refs_index_ok_cong:
  "id_to_type S1 = id_to_type S2 \<Longrightarrow> id_to_data S1 = id_to_data S2 \<Longrightarrow>
   refs_to S1 = refs_to S2 \<Longrightarrow> refs_index_ok X S1 = refs_index_ok X S2"
  by (simp add: refs_index_ok_def)

lemma refs_index_ok_wf:
  "refs_index_ok X S \<Longrightarrow> map_of (id_to_type S) a = Some obj \<Longrightarrow> obj_id obj = a"
  by (simp add: refs_index_ok_def)

lemma refs_index_ok_fields:
  assumes "refs_index_ok X (S\<lparr>id_to_type := T', id_to_data := D', refs_to := refs'\<rparr>)"
    and "id_to_type S' = T'" "id_to_data S' = D'" "refs_to S' = refs'"
  shows "refs_index_ok X S'"
  using assms refs_index_ok_cong[of S' "S\<lparr>id_to_type := T', id_to_data := D', refs_to := refs'\<rparr>" X]
  by simp

lemma add_preserves:
  assumes inv: "refs_index_ok X S" and a: "add X S oid scls data = Inr S'"
    and fresh: "id_to_data S oid = None" and id: "obj_id scls = oid"
  shows "refs_index_ok X S'"
proof -
  from add_components[OF a] have
    D: "id_to_data S' = (id_to_data S)(oid \<mapsto> data)"
    and T: "id_to_type S' = AList.update oid scls (id_to_type S)"
    and r: "update_refs_to X S scls None (Some data) = Inr (refs_to S')"
    by simp_all
  have wf': "\<forall>a obj. map_of (AList.update oid scls (id_to_type S)) a = Some obj \<longrightarrow>
                     obj_id obj = a"
    using refs_index_ok_wf[OF inv] id by (auto simp: update_conv')
  have other: "\<forall>a st f r. a \<noteq> obj_id scls \<longrightarrow>
        refers (AList.update oid scls (id_to_type S)) ((id_to_data S)(oid \<mapsto> data)) a st f r =
        refers (id_to_type S) (id_to_data S) a st f r"
    using id by (simp add: refers_def update_conv')
  have own_other: "\<forall>st f r. st \<noteq> obj_type scls \<longrightarrow>
        refers (AList.update oid scls (id_to_type S)) ((id_to_data S)(oid \<mapsto> data))
          (obj_id scls) st f r =
        refers (id_to_type S) (id_to_data S) (obj_id scls) st f r"
    using id fresh by (auto simp: refers_def update_conv')
  have own: "\<forall>f r. f \<in> set (get_object_fields X (obj_type scls)) \<longrightarrow>
        (r \<in> field_ref_set (Some data) f - field_ref_set None f \<longrightarrow>
           refers (AList.update oid scls (id_to_type S)) ((id_to_data S)(oid \<mapsto> data))
             (obj_id scls) (obj_type scls) f r) \<and>
        (r \<in> field_ref_set None f - field_ref_set (Some data) f \<longrightarrow>
           \<not> refers (AList.update oid scls (id_to_type S)) ((id_to_data S)(oid \<mapsto> data))
               (obj_id scls) (obj_type scls) f r) \<and>
        (r \<notin> field_ref_set (Some data) f - field_ref_set None f \<and>
         r \<notin> field_ref_set None f - field_ref_set (Some data) f \<longrightarrow>
           refers (AList.update oid scls (id_to_type S)) ((id_to_data S)(oid \<mapsto> data))
             (obj_id scls) (obj_type scls) f r =
           refers (id_to_type S) (id_to_data S) (obj_id scls) (obj_type scls) f r)"
    using id fresh by (auto simp: refers_def update_conv' field_ref_set_def)
  from refs_index_step[OF inv wf' r other own_other own] show ?thesis
    by (rule refs_index_ok_fields) (simp_all add: T D)
qed

lemma delete_preserves:
  assumes inv: "refs_index_ok X S" and a: "delete X S obj = Inr S'"
    and held: "map_of (id_to_type S) (obj_id obj) = Some obj"
  shows "refs_index_ok X S'"
proof -
  from delete_components[OF a] obtain data where
    d: "id_to_data S (obj_id obj) = Some data"
    and D: "id_to_data S' = (id_to_data S)(obj_id obj := None)"
    and T: "id_to_type S' = AList.delete (obj_id obj) (id_to_type S)"
    and r: "update_refs_to X S obj (Some data) None = Inr (refs_to S')"
    by blast
  let ?T = "AList.delete (obj_id obj) (id_to_type S)"
  let ?D = "(id_to_data S)(obj_id obj := None)"
  have wf': "\<forall>a o'. map_of ?T a = Some o' \<longrightarrow> obj_id o' = a"
    using refs_index_ok_wf[OF inv] by (auto simp: delete_conv' split: if_splits)
  have other: "\<forall>a st f r. a \<noteq> obj_id obj \<longrightarrow>
        refers ?T ?D a st f r = refers (id_to_type S) (id_to_data S) a st f r"
    by (simp add: refers_def delete_conv')
  have own_other: "\<forall>st f r. st \<noteq> obj_type obj \<longrightarrow>
        refers ?T ?D (obj_id obj) st f r =
        refers (id_to_type S) (id_to_data S) (obj_id obj) st f r"
    using held by (auto simp: refers_def delete_conv')
  have own: "\<forall>f r. f \<in> set (get_object_fields X (obj_type obj)) \<longrightarrow>
        (r \<in> field_ref_set None f - field_ref_set (Some data) f \<longrightarrow>
           refers ?T ?D (obj_id obj) (obj_type obj) f r) \<and>
        (r \<in> field_ref_set (Some data) f - field_ref_set None f \<longrightarrow>
           \<not> refers ?T ?D (obj_id obj) (obj_type obj) f r) \<and>
        (r \<notin> field_ref_set None f - field_ref_set (Some data) f \<and>
         r \<notin> field_ref_set (Some data) f - field_ref_set None f \<longrightarrow>
           refers ?T ?D (obj_id obj) (obj_type obj) f r =
           refers (id_to_type S) (id_to_data S) (obj_id obj) (obj_type obj) f r)"
    using held d by (auto simp: refers_def delete_conv' field_ref_set_def)
  from refs_index_step[OF inv wf' r other own_other own] show ?thesis
    by (rule refs_index_ok_fields) (simp_all add: T D)
qed

lemma stores_ref_upd:
  "stores_ref (d(field \<mapsto> v)) f r =
     (if f = field then stores_ref [field \<mapsto> v] field r else stores_ref d f r)"
  by (simp add: stores_ref_def)

lemma stores_ref_del:
  "stores_ref (d(field := None)) f r = (f \<noteq> field \<and> stores_ref d f r)"
  by (simp add: stores_ref_def)

lemma field_ref_set_single:
  "field_ref_set (Some [field \<mapsto> v]) f = {r. f = field \<and> stores_ref [field \<mapsto> v] field r}"
  by (auto simp: field_ref_set_def stores_ref_def split: if_splits)

lemma field_ref_set_orig:
  "field_ref_set (Some (case d field of Some ov \<Rightarrow> [field \<mapsto> ov] | None \<Rightarrow> Map.empty)) f =
     {r. f = field \<and> stores_ref d field r}"
  by (auto simp: field_ref_set_def stores_ref_def split: option.splits if_splits)

lemma field_ref_set_orig_some:
  "d field = Some ov \<Longrightarrow>
   field_ref_set (Some [field \<mapsto> ov]) f = {r. f = field \<and> stores_ref d field r}"
  by (auto simp: field_ref_set_def stores_ref_def split: option.splits if_splits)

lemma set_obj_field_preserves:
  assumes inv: "refs_index_ok X S" and a: "set_obj_field X S oid field v = Inr S'"
  shows "refs_index_ok X S'"
proof -
  from set_obj_field_components[OF a] obtain data scls where
    d: "id_to_data S oid = Some data" and t: "map_of (id_to_type S) oid = Some scls"
    and D: "id_to_data S' = (id_to_data S)(oid \<mapsto> data(field \<mapsto> v))"
    and T: "id_to_type S' = id_to_type S"
    and r: "update_refs_to X S scls
       (Some (case data field of Some ov \<Rightarrow> [field \<mapsto> ov] | None \<Rightarrow> Map.empty))
       (Some [field \<mapsto> v]) = Inr (refs_to S')"
    by blast
  have id: "obj_id scls = oid" using refs_index_ok_wf[OF inv t] .
  let ?D = "(id_to_data S)(oid \<mapsto> data(field \<mapsto> v))"
  let ?orig = "Some (case data field of Some ov \<Rightarrow> [field \<mapsto> ov] | None \<Rightarrow> Map.empty)"
  let ?new = "Some [field \<mapsto> v]"
  have wf': "\<forall>a obj. map_of (id_to_type S) a = Some obj \<longrightarrow> obj_id obj = a"
    using refs_index_ok_wf[OF inv] by blast
  have other: "\<forall>a st f r. a \<noteq> obj_id scls \<longrightarrow>
        refers (id_to_type S) ?D a st f r = refers (id_to_type S) (id_to_data S) a st f r"
    using id by (simp add: refers_def)
  have own_other: "\<forall>st f r. st \<noteq> obj_type scls \<longrightarrow>
        refers (id_to_type S) ?D (obj_id scls) st f r =
        refers (id_to_type S) (id_to_data S) (obj_id scls) st f r"
    using id t by (simp add: refers_def)
  have new: "refers (id_to_type S) ?D (obj_id scls) (obj_type scls) f r =
        (if f = field then stores_ref [field \<mapsto> v] field r else stores_ref data f r)" for f r
    using id t by (simp add: refers_def stores_ref_upd)
  have old: "refers (id_to_type S) (id_to_data S) (obj_id scls) (obj_type scls) f r =
        stores_ref data f r" for f r
    using id t d by (simp add: refers_def)
  have own: "\<forall>f r. f \<in> set (get_object_fields X (obj_type scls)) \<longrightarrow>
        (r \<in> field_ref_set ?new f - field_ref_set ?orig f \<longrightarrow>
           refers (id_to_type S) ?D (obj_id scls) (obj_type scls) f r) \<and>
        (r \<in> field_ref_set ?orig f - field_ref_set ?new f \<longrightarrow>
           \<not> refers (id_to_type S) ?D (obj_id scls) (obj_type scls) f r) \<and>
        (r \<notin> field_ref_set ?new f - field_ref_set ?orig f \<and>
         r \<notin> field_ref_set ?orig f - field_ref_set ?new f \<longrightarrow>
           refers (id_to_type S) ?D (obj_id scls) (obj_type scls) f r =
           refers (id_to_type S) (id_to_data S) (obj_id scls) (obj_type scls) f r)"
    unfolding new old field_ref_set_single field_ref_set_orig by auto
  from refs_index_step[OF inv wf' r other own_other own] show ?thesis
    by (rule refs_index_ok_fields) (simp_all add: T D)
qed

lemma unset_obj_field_preserves:
  assumes inv: "refs_index_ok X S" and a: "unset_obj_field X S oid field = Inr S'"
  shows "refs_index_ok X S'"
proof -
  from unset_obj_field_components[OF a] consider "S' = S"
    | data scls ov where "id_to_data S oid = Some data" "map_of (id_to_type S) oid = Some scls"
        "data field = Some ov"
        "id_to_data S' = (id_to_data S)(oid \<mapsto> data(field := None))"
        "id_to_type S' = id_to_type S"
        "update_refs_to X S scls (Some [field \<mapsto> ov]) None = Inr (refs_to S')"
    by blast
  then show ?thesis
  proof cases
    case 1
    with inv show ?thesis by simp
  next
    case 2
    note d = 2(1) and t = 2(2) and ov = 2(3) and D = 2(4) and T = 2(5) and r = 2(6)
    have id: "obj_id scls = oid" using refs_index_ok_wf[OF inv t] .
    let ?D = "(id_to_data S)(oid \<mapsto> data(field := None))"
    let ?orig = "Some [field \<mapsto> ov]"
    have wf': "\<forall>a obj. map_of (id_to_type S) a = Some obj \<longrightarrow> obj_id obj = a"
      using refs_index_ok_wf[OF inv] by blast
    have other: "\<forall>a st f r. a \<noteq> obj_id scls \<longrightarrow>
        refers (id_to_type S) ?D a st f r = refers (id_to_type S) (id_to_data S) a st f r"
      using id by (simp add: refers_def)
    have own_other: "\<forall>st f r. st \<noteq> obj_type scls \<longrightarrow>
        refers (id_to_type S) ?D (obj_id scls) st f r =
        refers (id_to_type S) (id_to_data S) (obj_id scls) st f r"
      using id t by (simp add: refers_def)
    have new: "refers (id_to_type S) ?D (obj_id scls) (obj_type scls) f r =
        (f \<noteq> field \<and> stores_ref data f r)" for f r
      using id t by (simp add: refers_def stores_ref_del)
    have old: "refers (id_to_type S) (id_to_data S) (obj_id scls) (obj_type scls) f r =
        stores_ref data f r" for f r
      using id t d by (simp add: refers_def)
    have none: "field_ref_set None f = {}" for f by (simp add: field_ref_set_def)
    have own: "\<forall>f r. f \<in> set (get_object_fields X (obj_type scls)) \<longrightarrow>
        (r \<in> field_ref_set None f - field_ref_set ?orig f \<longrightarrow>
           refers (id_to_type S) ?D (obj_id scls) (obj_type scls) f r) \<and>
        (r \<in> field_ref_set ?orig f - field_ref_set None f \<longrightarrow>
           \<not> refers (id_to_type S) ?D (obj_id scls) (obj_type scls) f r) \<and>
        (r \<notin> field_ref_set None f - field_ref_set ?orig f \<and>
         r \<notin> field_ref_set ?orig f - field_ref_set None f \<longrightarrow>
           refers (id_to_type S) ?D (obj_id scls) (obj_type scls) f r =
           refers (id_to_type S) (id_to_data S) (obj_id scls) (obj_type scls) f r)"
      unfolding new old none field_ref_set_orig_some[where d = data and field = field, OF ov] by auto
    from refs_index_step[OF inv wf' r other own_other own] show ?thesis
      by (rule refs_index_ok_fields) (simp_all add: T D)
  qed
qed

lemma objects_of_member:
  assumes "\<forall>a obj. map_of T a = Some obj \<longrightarrow> obj_id obj = a"
    and "\<forall>i\<in>ids. map_of T i \<noteq> None" and "map_of T (obj_id A) = Some A"
  shows "(A \<in> Option.these (map_of T ` ids)) = (obj_id A \<in> ids)"
proof
  assume "A \<in> Option.these (map_of T ` ids)"
  then obtain i where "i \<in> ids" "map_of T i = Some A"
    by (auto simp: Option.these_def image_iff)
  with assms(1) show "obj_id A \<in> ids" by auto
next
  assume "obj_id A \<in> ids"
  with assms(3) show "A \<in> Option.these (map_of T ` ids)"
    by (force simp: Option.these_def image_iff)
qed

lemma get_referrers_corresponds:
  assumes inv: "refs_index_ok X S" and A: "map_of (id_to_type S) (obj_id A) = Some A"
    and F: "F \<in> set (get_object_fields X (obj_type A))"
  shows "\<exists>R. get_referrers S B (Some (obj_type A)) (Some F) = Inr R \<and>
             (A \<in> R) =
             (\<exists>d. id_to_data S (obj_id A) = Some d \<and> stores_ref d F (obj_id B))"
proof -
  let ?ids = "refs_entry (refs_to S) (obj_id B) (obj_type A, F)"
  from inv have ids: "?ids = {a. \<exists>obj d. map_of (id_to_type S) a = Some obj \<and>
        obj_type obj = obj_type A \<and> F \<in> set (get_object_fields X (obj_type A)) \<and>
        id_to_data S a = Some d \<and> stores_ref d F (obj_id B)}"
    by (simp add: refs_index_ok_def)
  have wf: "\<forall>a obj. map_of (id_to_type S) a = Some obj \<longrightarrow> obj_id obj = a"
    using refs_index_ok_wf[OF inv] by blast
  have all: "\<forall>i\<in>?ids. map_of (id_to_type S) i \<noteq> None" unfolding ids by auto
  have g: "get_referrers S B (Some (obj_type A)) (Some F) =
             Inr (Option.these (map_of (id_to_type S) ` ?ids))"
  proof (cases "refs_to S (obj_id B)")
    case None
    then have "?ids = {}" by (simp add: refs_entry_def)
    with None show ?thesis by (simp add: get_referrers_def Option.these_def)
  next
    case (Some refs)
    then have e: "(case refs (obj_type A, F) of None \<Rightarrow> {} | Some ids \<Rightarrow> ids) = ?ids"
      by (simp add: refs_entry_def)
    show ?thesis using Some all unfolding get_referrers_def objects_of_def
      by (simp add: e)
  qed
  have "(A \<in> Option.these (map_of (id_to_type S) ` ?ids)) = (obj_id A \<in> ?ids)"
    by (rule objects_of_member[OF wf all A])
  also have "\<dots> = (\<exists>d. id_to_data S (obj_id A) = Some d \<and> stores_ref d F (obj_id B))"
    unfolding ids using A F by auto
  finally show ?thesis using g by blast
qed

lemma set_obj_field_untouched:
  assumes a: "set_obj_field X S oid field v = Inr S'"
    and d: "id_to_data S oid = Some data"
    and same: "stores_ref data field r = stores_ref [field \<mapsto> v] field r"
  shows "refs_to S' r = refs_to S r"
proof -
  from set_obj_field_components[OF a] d obtain scls where
    r: "update_refs_to X S scls
       (Some (case data field of Some ov \<Rightarrow> [field \<mapsto> ov] | None \<Rightarrow> Map.empty))
       (Some [field \<mapsto> v]) = Inr (refs_to S')"
    by auto
  show ?thesis
    by (rule update_refs_to_other[OF r])
       (use same in \<open>auto simp: field_ref_set_single field_ref_set_orig\<close>)
qed

lemma empty_schema_ok: "refs_index_ok X empty_schema"
  by (simp add: refs_index_ok_def empty_schema_def refs_entry_def)

lemma get_referrers_members:
  assumes inv: "refs_index_ok X S"
  shows "\<exists>R. get_referrers S B (Some st) (Some F) = Inr R \<and>
     (\<forall>obj. obj \<in> R \<longrightarrow>
        map_of (id_to_type S) (obj_id obj) = Some obj \<and> obj_type obj = st \<and>
        F \<in> set (get_object_fields X st) \<and>
        (\<exists>d. id_to_data S (obj_id obj) = Some d \<and> stores_ref d F (obj_id B)))"
proof -
  let ?ids = "refs_entry (refs_to S) (obj_id B) (st, F)"
  from inv have ids: "?ids = {a. \<exists>obj d. map_of (id_to_type S) a = Some obj \<and>
        obj_type obj = st \<and> F \<in> set (get_object_fields X st) \<and>
        id_to_data S a = Some d \<and> stores_ref d F (obj_id B)}"
    by (simp add: refs_index_ok_def)
  have wf: "\<forall>a obj. map_of (id_to_type S) a = Some obj \<longrightarrow> obj_id obj = a"
    using refs_index_ok_wf[OF inv] by blast
  have all: "\<forall>i\<in>?ids. map_of (id_to_type S) i \<noteq> None" unfolding ids by auto
  have g: "get_referrers S B (Some st) (Some F) =
             Inr (Option.these (map_of (id_to_type S) ` ?ids))"
  proof (cases "refs_to S (obj_id B)")
    case None
    then have "?ids = {}" by (simp add: refs_entry_def)
    with None show ?thesis by (simp add: get_referrers_def Option.these_def)
  next
    case (Some refs)
    then have e: "(case refs (st, F) of None \<Rightarrow> {} | Some ids \<Rightarrow> ids) = ?ids"
      by (simp add: refs_entry_def)
    show ?thesis using Some all unfolding get_referrers_def objects_of_def
      by (simp add: e)
  qed
  have "map_of (id_to_type S) (obj_id obj) = Some obj \<and> obj_type obj = st \<and>
        F \<in> set (get_object_fields X st) \<and>
        (\<exists>d. id_to_data S (obj_id obj) = Some d \<and> stores_ref d F (obj_id B))"
    if "obj \<in> Option.these (map_of (id_to_type S) ` ?ids)" for obj
  proof -
    from that obtain i where i: "i \<in> ?ids" "map_of (id_to_type S) i = Some obj"
      by (auto simp: Option.these_def image_iff)
    with wf have "obj_id obj = i" by blast
    with i show ?thesis unfolding ids by auto
  qed
  with g show ?thesis by blast
qed

lemma set_obj_field_entry:
  assumes a: "set_obj_field X S oid field v = Inr S'"
    and d: "id_to_data S oid = Some data" and t: "map_of (id_to_type S) oid = Some scls"
  shows "refs_entry (refs_to S') r (st, f) =
     (if st = obj_type scls \<and> f = field \<and> field \<in> set (get_object_fields X st) \<and>
         stores_ref [field \<mapsto> v] field r \<and> \<not> stores_ref data field r
        then insert (obj_id scls) (refs_entry (refs_to S) r (st, f))
      else if st = obj_type scls \<and> f = field \<and> field \<in> set (get_object_fields X st) \<and>
              stores_ref data field r \<and> \<not> stores_ref [field \<mapsto> v] field r
        then refs_entry (refs_to S) r (st, f) - {obj_id scls}
      else refs_entry (refs_to S) r (st, f))"
proof -
  from set_obj_field_components[OF a] d t have
    r: "update_refs_to X S scls
       (Some (case data field of Some ov \<Rightarrow> [field \<mapsto> ov] | None \<Rightarrow> Map.empty))
       (Some [field \<mapsto> v]) = Inr (refs_to S')"
    by auto
  have Nw: "(r \<in> field_ref_set (Some [field \<mapsto> v]) f -
              field_ref_set (Some (case data field of Some ov \<Rightarrow> [field \<mapsto> ov]
                                   | None \<Rightarrow> Map.empty)) f) =
            (f = field \<and> stores_ref [field \<mapsto> v] field r \<and> \<not> stores_ref data field r)"
    unfolding field_ref_set_single field_ref_set_orig by blast
  have Od: "(r \<in> field_ref_set (Some (case data field of Some ov \<Rightarrow> [field \<mapsto> ov]
                                   | None \<Rightarrow> Map.empty)) f -
              field_ref_set (Some [field \<mapsto> v]) f) =
            (f = field \<and> stores_ref data field r \<and> \<not> stores_ref [field \<mapsto> v] field r)"
    unfolding field_ref_set_single field_ref_set_orig by blast
  note e = update_refs_to_entry[OF r, of r st f, unfolded Nw Od]
  show ?thesis
  proof (cases "f = field")
    case True
    note e2 = e[unfolded True]
    show ?thesis unfolding True e2
      by (cases "st = obj_type scls"; cases "field \<in> set (get_object_fields X st)";
          cases "stores_ref [field \<mapsto> v] field r"; cases "stores_ref data field r";
          simp)
  next
    case False
    show ?thesis unfolding e using False by simp
  qed
qed

lemma set_obj_field_state:
  assumes a: "set_obj_field X S oid field v = Inr S'"
  shows "(\<exists>data. id_to_data S oid = Some data \<and>
            id_to_data S' = (id_to_data S)(oid \<mapsto> data(field \<mapsto> v))) \<and>
         id_to_type S' = id_to_type S"
  using set_obj_field_components[OF a] by blast

lemma unset_obj_field_state:
  assumes a: "unset_obj_field X S oid field = Inr S'"
  shows "id_to_type S' = id_to_type S \<and>
         id_to_data S' =
           (case id_to_data S oid of
              None \<Rightarrow> id_to_data S
            | Some data \<Rightarrow> (id_to_data S)(oid \<mapsto> data(field := None)))"
proof -
  from unset_obj_field_components[OF a] consider
      "S' = S" "id_to_data S oid = None"
    | data where "S' = S" "id_to_data S oid = Some data" "data field = None"
    | data where "id_to_data S oid = Some data"
        "id_to_data S' = (id_to_data S)(oid \<mapsto> data(field := None))"
        "id_to_type S' = id_to_type S"
    by (cases "id_to_data S oid") auto
  then show ?thesis
  proof cases
    case 1
    then show ?thesis by simp
  next
    case 2
    from 2(3) have "data(field := None) = data" by (simp add: fun_upd_idem)
    with 2 show ?thesis by (simp add: map_upd_triv)
  next
    case 3
    then show ?thesis by simp
  qed
qed

lemma add_referrers:
  assumes inv: "refs_index_ok X S" and a: "add X S oid scls data = Inr S'"
    and fresh: "id_to_data S oid = None" and id: "obj_id scls = oid"
    and F: "F \<in> set (get_object_fields X (obj_type scls))"
  shows "\<exists>R. get_referrers S' B (Some (obj_type scls)) (Some F) = Inr R \<and>
             (scls \<in> R) = stores_ref data F (obj_id B)"
proof -
  from add_components[OF a] have
    D: "id_to_data S' = (id_to_data S)(oid \<mapsto> data)"
    and T: "id_to_type S' = AList.update oid scls (id_to_type S)"
    by simp_all
  have A: "map_of (id_to_type S') (obj_id scls) = Some scls"
    using id by (simp add: T update_conv')
  have dA: "id_to_data S' (obj_id scls) = Some data"
    unfolding D id by simp
  from get_referrers_corresponds[OF add_preserves[OF inv a fresh id] A F, of B]
  obtain R where g: "get_referrers S' B (Some (obj_type scls)) (Some F) = Inr R"
    and m: "(scls \<in> R) =
            (\<exists>d. id_to_data S' (obj_id scls) = Some d \<and> stores_ref d F (obj_id B))"
    by blast
  have "(scls \<in> R) = stores_ref data F (obj_id B)"
    unfolding m dA by simp
  with g show ?thesis by blast
qed

lemma delete_referrers:
  assumes inv: "refs_index_ok X S" and a: "delete X S obj = Inr S'"
    and held: "map_of (id_to_type S) (obj_id obj) = Some obj"
  shows "\<exists>R. get_referrers S' B (Some (obj_type obj)) (Some F) = Inr R \<and> obj \<notin> R"
proof -
  from delete_components[OF a] have
    T: "id_to_type S' = AList.delete (obj_id obj) (id_to_type S)" by blast
  have n: "map_of (id_to_type S') (obj_id obj) = None" by (simp add: T delete_conv')
  from get_referrers_members[OF delete_preserves[OF inv a held], of B "obj_type obj" F]
  obtain R where g: "get_referrers S' B (Some (obj_type obj)) (Some F) = Inr R"
    and m: "\<forall>o'. o' \<in> R \<longrightarrow> map_of (id_to_type S') (obj_id o') = Some o'"
    by blast
  have "obj \<notin> R"
  proof
    assume "obj \<in> R"
    with m have "map_of (id_to_type S') (obj_id obj) = Some obj" by blast
    with n show False by simp
  qed
  with g show ?thesis by blast
qed

lemma set_obj_field_referrers:
  assumes inv: "refs_index_ok X S" and a: "set_obj_field X S oid field v = Inr S'"
    and A: "map_of (id_to_type S) oid = Some A"
    and F: "field \<in> set (get_object_fields X (obj_type A))"
  shows "\<exists>R. get_referrers S' B (Some (obj_type A)) (Some field) = Inr R \<and>
             (A \<in> R) = stores_ref [field \<mapsto> v] field (obj_id B)"
proof -
  from set_obj_field_state[OF a] obtain data where
    d: "id_to_data S oid = Some data"
    and D: "id_to_data S' = (id_to_data S)(oid \<mapsto> data(field \<mapsto> v))"
    and T: "id_to_type S' = id_to_type S" by blast
  have id: "obj_id A = oid" using refs_index_ok_wf[OF inv A] .
  have A': "map_of (id_to_type S') (obj_id A) = Some A" using A id T by simp
  have sr: "stores_ref (data(field \<mapsto> v)) field (obj_id B) =
            stores_ref [field \<mapsto> v] field (obj_id B)"
    by (simp add: stores_ref_def)
  have dA: "id_to_data S' (obj_id A) = Some (data(field \<mapsto> v))"
    unfolding D id by simp
  from get_referrers_corresponds[OF set_obj_field_preserves[OF inv a] A' F, of B]
  obtain R where g: "get_referrers S' B (Some (obj_type A)) (Some field) = Inr R"
    and m: "(A \<in> R) =
            (\<exists>d. id_to_data S' (obj_id A) = Some d \<and> stores_ref d field (obj_id B))"
    by blast
  have "(A \<in> R) = stores_ref [field \<mapsto> v] field (obj_id B)"
    unfolding m dA using sr by simp
  with g show ?thesis by blast
qed

lemma unset_obj_field_referrers:
  assumes inv: "refs_index_ok X S" and a: "unset_obj_field X S oid field = Inr S'"
    and A: "map_of (id_to_type S) oid = Some A"
  shows "\<exists>R. get_referrers S' B (Some (obj_type A)) (Some field) = Inr R \<and> A \<notin> R"
proof -
  from unset_obj_field_state[OF a] have
    T: "id_to_type S' = id_to_type S"
    and D: "id_to_data S' =
           (case id_to_data S oid of
              None \<Rightarrow> id_to_data S
            | Some data \<Rightarrow> (id_to_data S)(oid \<mapsto> data(field := None)))" by simp_all
  have id: "obj_id A = oid" using refs_index_ok_wf[OF inv A] .
  have no: "\<not> (\<exists>d. id_to_data S' (obj_id A) = Some d \<and> stores_ref d field (obj_id B))"
    using id by (auto simp: D stores_ref_del split: option.splits)
  from get_referrers_members[OF unset_obj_field_preserves[OF inv a], of B "obj_type A" field]
  obtain R where g: "get_referrers S' B (Some (obj_type A)) (Some field) = Inr R"
    and m: "\<forall>o'. o' \<in> R \<longrightarrow>
          (\<exists>d. id_to_data S' (obj_id o') = Some d \<and> stores_ref d field (obj_id B))"
    by blast
  have "A \<notin> R"
  proof
    assume "A \<in> R"
    with m have "\<exists>d. id_to_data S' (obj_id A) = Some d \<and> stores_ref d field (obj_id B)"
      by blast
    with no show False by blast
  qed
  with g show ?thesis by blast
qed

text \<open>
  C2. In a catalog that keeps the correspondence \<open>refs_index_ok\<close>, an object \<open>A\<close> of
  the catalog is among \<open>get_referrers(B, scls_type = type(A), field_name = F)\<close>, for a
  reference-typed field \<open>F\<close> of its class, exactly when its field \<open>F\<close> stores a
  reference to \<open>B\<close>. The empty catalog keeps the correspondence. A successful \<open>add\<close>
  (of an object under an identity not yet in the catalog, its own), \<open>delete\<close> (of the
  object the catalog holds under its identity), \<open>set_field\<close> and \<open>unset_field\<close> gives
  a catalog that keeps it and whose data is the old data with the change of the operation:
  the added object is afterwards a referrer of \<open>B\<close> exactly when its data refers to
  \<open>B\<close>, the deleted object is no referrer, the object whose field was set is a referrer
  under that field exactly when the new value refers to \<open>B\<close>, and the object whose
  field was unset is no referrer under it. \<open>set_field\<close> works on the index by the
  difference of the old and the new value: the identity of the object is inserted into
  the entry of \<open>r\<close> when only the new value refers to \<open>r\<close>, removed from it when only
  the old value does, and the whole entry of \<open>r\<close> stays as it is when both values agree
  on \<open>r\<close>, so also when both refer to it.
\<close>

theorem referrers_index:
  "(refs_index_ok X S \<and> map_of (id_to_type S) (obj_id A) = Some A \<and>
    F \<in> set (get_object_fields X (obj_type A)) \<longrightarrow>
      (\<exists>R. get_referrers S B (Some (obj_type A)) (Some F) = Inr R \<and>
           (A \<in> R) =
           (\<exists>d. id_to_data S (obj_id A) = Some d \<and> stores_ref d F (obj_id B)))) \<and>
   refs_index_ok X empty_schema \<and>
   (refs_index_ok X S \<and> add X S oid scls data = Inr Sa \<and> id_to_data S oid = None \<and>
    obj_id scls = oid \<longrightarrow>
      refs_index_ok X Sa \<and>
      id_to_data Sa = (id_to_data S)(oid \<mapsto> data) \<and>
      map_of (id_to_type Sa) = (map_of (id_to_type S))(oid \<mapsto> scls)) \<and>
   (refs_index_ok X S \<and> add X S oid scls data = Inr Sa \<and> id_to_data S oid = None \<and>
    obj_id scls = oid \<and> F \<in> set (get_object_fields X (obj_type scls)) \<longrightarrow>
      (\<exists>R. get_referrers Sa B (Some (obj_type scls)) (Some F) = Inr R \<and>
           (scls \<in> R) = stores_ref data F (obj_id B))) \<and>
   (refs_index_ok X S \<and> delete X S obj = Inr Sd \<and>
    map_of (id_to_type S) (obj_id obj) = Some obj \<longrightarrow>
      refs_index_ok X Sd \<and>
      id_to_data Sd = (id_to_data S)(obj_id obj := None) \<and>
      map_of (id_to_type Sd) = (map_of (id_to_type S))(obj_id obj := None) \<and>
      (\<exists>R. get_referrers Sd B (Some (obj_type obj)) (Some F) = Inr R \<and> obj \<notin> R)) \<and>
   (refs_index_ok X S \<and> set_obj_field X S oid' field v = Inr Ss \<longrightarrow>
      refs_index_ok X Ss \<and>
      (\<exists>d. id_to_data S oid' = Some d \<and>
           id_to_data Ss = (id_to_data S)(oid' \<mapsto> d(field \<mapsto> v))) \<and>
      id_to_type Ss = id_to_type S) \<and>
   (refs_index_ok X S \<and> set_obj_field X S oid' field v = Inr Ss \<and>
    map_of (id_to_type S) oid' = Some A \<and>
    field \<in> set (get_object_fields X (obj_type A)) \<longrightarrow>
      (\<exists>R. get_referrers Ss B (Some (obj_type A)) (Some field) = Inr R \<and>
           (A \<in> R) = stores_ref [field \<mapsto> v] field (obj_id B))) \<and>
   (set_obj_field X S oid' field v = Inr Ss \<and> id_to_data S oid' = Some dat \<and>
    map_of (id_to_type S) oid' = Some A \<longrightarrow>
      refs_entry (refs_to Ss) r (st, f) =
        (if st = obj_type A \<and> f = field \<and> field \<in> set (get_object_fields X st) \<and>
            stores_ref [field \<mapsto> v] field r \<and> \<not> stores_ref dat field r
           then insert (obj_id A) (refs_entry (refs_to S) r (st, f))
         else if st = obj_type A \<and> f = field \<and> field \<in> set (get_object_fields X st) \<and>
                 stores_ref dat field r \<and> \<not> stores_ref [field \<mapsto> v] field r
           then refs_entry (refs_to S) r (st, f) - {obj_id A}
         else refs_entry (refs_to S) r (st, f))) \<and>
   (set_obj_field X S oid' field v = Inr Ss \<and> id_to_data S oid' = Some dat \<and>
    stores_ref dat field r = stores_ref [field \<mapsto> v] field r \<longrightarrow>
      refs_to Ss r = refs_to S r) \<and>
   (refs_index_ok X S \<and> unset_obj_field X S oid' field = Inr Su \<longrightarrow>
      refs_index_ok X Su \<and>
      id_to_type Su = id_to_type S \<and>
      id_to_data Su =
        (case id_to_data S oid' of
           None \<Rightarrow> id_to_data S
         | Some d \<Rightarrow> (id_to_data S)(oid' \<mapsto> d(field := None)))) \<and>
   (refs_index_ok X S \<and> unset_obj_field X S oid' field = Inr Su \<and>
    map_of (id_to_type S) oid' = Some A \<longrightarrow>
      (\<exists>R. get_referrers Su B (Some (obj_type A)) (Some field) = Inr R \<and> A \<notin> R))"
proof -
  have c1: "refs_index_ok X S \<and> map_of (id_to_type S) (obj_id A) = Some A \<and>
    F \<in> set (get_object_fields X (obj_type A)) \<longrightarrow>
      (\<exists>R. get_referrers S B (Some (obj_type A)) (Some F) = Inr R \<and>
           (A \<in> R) =
           (\<exists>d. id_to_data S (obj_id A) = Some d \<and> stores_ref d F (obj_id B)))"
    using get_referrers_corresponds[of X S A F B] by blast
  have c2: "refs_index_ok X empty_schema" by (rule empty_schema_ok)
  have c3: "refs_index_ok X S \<and> add X S oid scls data = Inr Sa \<and> id_to_data S oid = None \<and>
    obj_id scls = oid \<longrightarrow>
      refs_index_ok X Sa \<and>
      id_to_data Sa = (id_to_data S)(oid \<mapsto> data) \<and>
      map_of (id_to_type Sa) = (map_of (id_to_type S))(oid \<mapsto> scls)"
  proof
    assume h: "refs_index_ok X S \<and> add X S oid scls data = Inr Sa \<and>
      id_to_data S oid = None \<and> obj_id scls = oid"
    then have a: "add X S oid scls data = Inr Sa" by blast
    from h have "refs_index_ok X Sa" using add_preserves[of X S oid scls data Sa] by blast
    moreover from add_components[OF a] have "id_to_data Sa = (id_to_data S)(oid \<mapsto> data)"
      by blast
    moreover from add_components[OF a] have
      "map_of (id_to_type Sa) = (map_of (id_to_type S))(oid \<mapsto> scls)"
      by (simp add: update_conv')
    ultimately show "refs_index_ok X Sa \<and>
      id_to_data Sa = (id_to_data S)(oid \<mapsto> data) \<and>
      map_of (id_to_type Sa) = (map_of (id_to_type S))(oid \<mapsto> scls)" by blast
  qed
  have c4: "refs_index_ok X S \<and> add X S oid scls data = Inr Sa \<and> id_to_data S oid = None \<and>
    obj_id scls = oid \<and> F \<in> set (get_object_fields X (obj_type scls)) \<longrightarrow>
      (\<exists>R. get_referrers Sa B (Some (obj_type scls)) (Some F) = Inr R \<and>
           (scls \<in> R) = stores_ref data F (obj_id B))"
    using add_referrers[of X S oid scls data Sa F B] by blast
  have c5: "refs_index_ok X S \<and> delete X S obj = Inr Sd \<and>
    map_of (id_to_type S) (obj_id obj) = Some obj \<longrightarrow>
      refs_index_ok X Sd \<and>
      id_to_data Sd = (id_to_data S)(obj_id obj := None) \<and>
      map_of (id_to_type Sd) = (map_of (id_to_type S))(obj_id obj := None) \<and>
      (\<exists>R. get_referrers Sd B (Some (obj_type obj)) (Some F) = Inr R \<and> obj \<notin> R)"
  proof
    assume h: "refs_index_ok X S \<and> delete X S obj = Inr Sd \<and>
      map_of (id_to_type S) (obj_id obj) = Some obj"
    then have a: "delete X S obj = Inr Sd" by blast
    from h have "refs_index_ok X Sd" using delete_preserves[of X S obj Sd] by blast
    moreover from delete_components[OF a] have
      "id_to_data Sd = (id_to_data S)(obj_id obj := None)" by blast
    moreover from delete_components[OF a] have
      "map_of (id_to_type Sd) = (map_of (id_to_type S))(obj_id obj := None)"
      by (auto simp: delete_conv')
    moreover from h have
      "\<exists>R. get_referrers Sd B (Some (obj_type obj)) (Some F) = Inr R \<and> obj \<notin> R"
      using delete_referrers[of X S obj Sd B F] by blast
    ultimately show "refs_index_ok X Sd \<and>
      id_to_data Sd = (id_to_data S)(obj_id obj := None) \<and>
      map_of (id_to_type Sd) = (map_of (id_to_type S))(obj_id obj := None) \<and>
      (\<exists>R. get_referrers Sd B (Some (obj_type obj)) (Some F) = Inr R \<and> obj \<notin> R)" by blast
  qed
  have c6: "refs_index_ok X S \<and> set_obj_field X S oid' field v = Inr Ss \<longrightarrow>
      refs_index_ok X Ss \<and>
      (\<exists>d. id_to_data S oid' = Some d \<and>
           id_to_data Ss = (id_to_data S)(oid' \<mapsto> d(field \<mapsto> v))) \<and>
      id_to_type Ss = id_to_type S"
    using set_obj_field_preserves[of X S oid' field v Ss]
      set_obj_field_state[of X S oid' field v Ss] by blast
  have c7: "refs_index_ok X S \<and> set_obj_field X S oid' field v = Inr Ss \<and>
    map_of (id_to_type S) oid' = Some A \<and>
    field \<in> set (get_object_fields X (obj_type A)) \<longrightarrow>
      (\<exists>R. get_referrers Ss B (Some (obj_type A)) (Some field) = Inr R \<and>
           (A \<in> R) = stores_ref [field \<mapsto> v] field (obj_id B))"
    using set_obj_field_referrers[of X S oid' field v Ss A B] by blast
  have c8: "set_obj_field X S oid' field v = Inr Ss \<and> id_to_data S oid' = Some dat \<and>
    map_of (id_to_type S) oid' = Some A \<longrightarrow>
      refs_entry (refs_to Ss) r (st, f) =
        (if st = obj_type A \<and> f = field \<and> field \<in> set (get_object_fields X st) \<and>
            stores_ref [field \<mapsto> v] field r \<and> \<not> stores_ref dat field r
           then insert (obj_id A) (refs_entry (refs_to S) r (st, f))
         else if st = obj_type A \<and> f = field \<and> field \<in> set (get_object_fields X st) \<and>
                 stores_ref dat field r \<and> \<not> stores_ref [field \<mapsto> v] field r
           then refs_entry (refs_to S) r (st, f) - {obj_id A}
         else refs_entry (refs_to S) r (st, f))"
    using set_obj_field_entry[of X S oid' field v Ss dat A r st f] by blast
  have c9: "set_obj_field X S oid' field v = Inr Ss \<and> id_to_data S oid' = Some dat \<and>
    stores_ref dat field r = stores_ref [field \<mapsto> v] field r \<longrightarrow>
      refs_to Ss r = refs_to S r"
    using set_obj_field_untouched[of X S oid' field v Ss dat r] by blast
  have c10: "refs_index_ok X S \<and> unset_obj_field X S oid' field = Inr Su \<longrightarrow>
      refs_index_ok X Su \<and>
      id_to_type Su = id_to_type S \<and>
      id_to_data Su =
        (case id_to_data S oid' of
           None \<Rightarrow> id_to_data S
         | Some d \<Rightarrow> (id_to_data S)(oid' \<mapsto> d(field := None)))"
    using unset_obj_field_preserves[of X S oid' field Su]
      unset_obj_field_state[of X S oid' field Su] by blast
  have c11: "refs_index_ok X S \<and> unset_obj_field X S oid' field = Inr Su \<and>
    map_of (id_to_type S) oid' = Some A \<longrightarrow>
      (\<exists>R. get_referrers Su B (Some (obj_type A)) (Some field) = Inr R \<and> A \<notin> R)"
    using unset_obj_field_referrers[of X S oid' field Su A B] by blast
  from c1 c2 c3 c4 c5 c6 c7 c8 c9 c10 c11 show ?thesis by (intro conjI)
qed

lemma ex_std_ok: "refs_index_ok ex_ext ex_std"
  by (rule add_preserves[OF empty_schema_ok ex_std_add]) (simp_all add: empty_schema_def)

lemma ex_A_ok: "refs_index_ok ex_ext ex_A"
  by (rule add_preserves[OF ex_std_ok ex_A_add]) (simp_all add: ex_std_def)

lemma ex_AB_ok: "refs_index_ok ex_ext ex_AB"
  by (rule add_preserves[OF ex_A_ok ex_AB_add]) (simp_all add: ex_A_def)

lemma ex_ABC_ok: "refs_index_ok ex_ext ex_ABC"
  by (rule add_preserves[OF ex_AB_ok ex_ABC_add]) (simp_all add: ex_AB_def)

lemmas op_defs = delete_def set_obj_field_def unset_obj_field_def catalog_defs

lemma ex_delete: "\<not> isl (delete ex_ext ex_ABC (SObj 12 Type))"
  by (simp add: op_defs ex_ext_def ex_ABC_def)

lemma ex_set: "\<not> isl (set_obj_field ex_ext ex_ABC 12 ''bases'' (CollV [11, 10]))"
  by (simp add: op_defs ex_ext_def ex_ABC_def)

lemma ex_unset: "\<not> isl (unset_obj_field ex_ext ex_ABC 12 ''bases'')"
  by (simp add: op_defs ex_ext_def ex_ABC_def)

lemma ex_referrers_before:
  "get_referrers ex_AB (SObj 11 Type) (Some Type) (Some ''bases'') = Inr {}"
  by (simp add: get_referrers_def objects_of_def ex_AB_def)

lemma ex_referrers:
  "get_referrers ex_ABC (SObj 11 Type) (Some Type) (Some ''bases'') = Inr {SObj 12 Type}"
  by (simp add: get_referrers_def objects_of_def ex_ABC_def)

lemma ex_set_referrers:
  "get_referrers (projr (set_obj_field ex_ext ex_ABC 12 ''bases'' (CollV [11, 10])))
     (SObj 10 Type) (Some Type) (Some ''bases'') = Inr {SObj 11 Type, SObj 12 Type}"
  by (simp add: get_referrers_def objects_of_def op_defs ex_ext_def ex_ABC_def insert_commute)

lemma ex_unset_referrers:
  "get_referrers (projr (unset_obj_field ex_ext ex_ABC 12 ''bases''))
     (SObj 11 Type) (Some Type) (Some ''bases'') = Inr {}"
  by (simp add: get_referrers_def objects_of_def op_defs ex_ext_def ex_ABC_def)

lemma ex_delete_referrers:
  "get_referrers (projr (delete ex_ext ex_ABC (SObj 12 Type)))
     (SObj 11 Type) (Some Type) (Some ''bases'') = Inr {}"
  by (simp add: get_referrers_def objects_of_def op_defs ex_ext_def ex_ABC_def)

text \<open>
  \<open>_add\<close> tests that the name is new, not that the identity is. Adding under the
  identity 12 of \<open>C\<close> again, with the new name \<open>D\<close> and no bases, succeeds: the data
  of 12 is replaced, and the entry of \<open>B\<close> still lists 12.
\<close>

lemma ex_readd:
  "\<not> isl (add ex_ext ex_ABC 12 (SObj 12 Type)
            [''name'' \<mapsto> QNameV ''D'' ''std'', ''bases'' \<mapsto> CollV []])"
  by (simp add: catalog_defs ex_ext_def ex_ABC_def)

lemma ex_readd_data:
  "id_to_data (projr (add ex_ext ex_ABC 12 (SObj 12 Type)
            [''name'' \<mapsto> QNameV ''D'' ''std'', ''bases'' \<mapsto> CollV []])) 12 =
   Some [''name'' \<mapsto> QNameV ''D'' ''std'', ''bases'' \<mapsto> CollV []]"
  by (simp add: catalog_defs ex_ext_def ex_ABC_def)

lemma ex_readd_type:
  "map_of (id_to_type (projr (add ex_ext ex_ABC 12 (SObj 12 Type)
            [''name'' \<mapsto> QNameV ''D'' ''std'', ''bases'' \<mapsto> CollV []]))) 12 =
   Some (SObj 12 Type)"
  by (simp add: catalog_defs ex_ext_def ex_ABC_def)

lemma ex_readd_referrers:
  "get_referrers (projr (add ex_ext ex_ABC 12 (SObj 12 Type)
            [''name'' \<mapsto> QNameV ''D'' ''std'', ''bases'' \<mapsto> CollV []]))
     (SObj 11 Type) (Some Type) (Some ''bases'') = Inr {SObj 12 Type}"
  by (simp add: get_referrers_def objects_of_def catalog_defs ex_ext_def ex_ABC_def)

text \<open>
  \<open>_delete\<close> removes the index entries under the class of the handle it is given.
  With a handle of identity 12 and class \<open>Cast\<close> the entries of \<open>C\<close> under \<open>Type\<close>
  stay, and \<open>get_referrers\<close> then fails on the identity that is gone.
\<close>

lemma ex_foreign_delete:
  "\<not> isl (delete ex_ext ex_ABC (SObj 12 Cast))"
  by (simp add: op_defs ex_ext_def ex_ABC_def)

lemma ex_foreign_delete_referrers:
  "get_referrers (projr (delete ex_ext ex_ABC (SObj 12 Cast)))
     (SObj 11 Type) (Some Type) (Some ''bases'') = Inl KeyError"
  by (simp add: get_referrers_def objects_of_def op_defs ex_ext_def ex_ABC_def)


lemma ex_foreign_delete_breaks:
  "refs_index_ok ex_ext ex_ABC \<and>
   \<not> isl (delete ex_ext ex_ABC (SObj 12 Cast)) \<and>
   get_referrers (projr (delete ex_ext ex_ABC (SObj 12 Cast)))
     (SObj 11 Type) (Some Type) (Some ''bases'') = Inl KeyError"
  using ex_ABC_ok ex_foreign_delete ex_foreign_delete_referrers by (intro conjI)

theorem referrers_index_witness:
  "refs_index_ok ex_ext ex_AB \<and> id_to_data ex_AB 12 = None \<and>
   add ex_ext ex_AB 12 (SObj 12 Type)
     [''name'' \<mapsto> QNameV ''C'' ''std'', ''bases'' \<mapsto> CollV [11]] = Inr ex_ABC \<and>
   refs_index_ok ex_ext ex_ABC \<and>
   get_referrers ex_AB (SObj 11 Type) (Some Type) (Some ''bases'') = Inr {} \<and>
   get_referrers ex_ABC (SObj 11 Type) (Some Type) (Some ''bases'') = Inr {SObj 12 Type} \<and>
   \<not> isl (set_obj_field ex_ext ex_ABC 12 ''bases'' (CollV [11, 10])) \<and>
   refs_index_ok ex_ext (projr (set_obj_field ex_ext ex_ABC 12 ''bases'' (CollV [11, 10]))) \<and>
   id_to_data (projr (set_obj_field ex_ext ex_ABC 12 ''bases'' (CollV [11, 10]))) 12 =
     Some [''name'' \<mapsto> QNameV ''C'' ''std'', ''bases'' \<mapsto> CollV [11, 10]] \<and>
   refs_entry (refs_to ex_ABC) 10 (Type, ''bases'') = {11} \<and>
   refs_entry (refs_to (projr (set_obj_field ex_ext ex_ABC 12 ''bases'' (CollV [11, 10]))))
     10 (Type, ''bases'') = {11, 12} \<and>
   refs_to (projr (set_obj_field ex_ext ex_ABC 12 ''bases'' (CollV [11, 10]))) 11 =
     refs_to ex_ABC 11 \<and>
   get_referrers (projr (set_obj_field ex_ext ex_ABC 12 ''bases'' (CollV [11, 10])))
     (SObj 10 Type) (Some Type) (Some ''bases'') = Inr {SObj 11 Type, SObj 12 Type} \<and>
   \<not> isl (unset_obj_field ex_ext ex_ABC 12 ''bases'') \<and>
   refs_index_ok ex_ext (projr (unset_obj_field ex_ext ex_ABC 12 ''bases'')) \<and>
   id_to_data (projr (unset_obj_field ex_ext ex_ABC 12 ''bases'')) 12 =
     Some [''name'' \<mapsto> QNameV ''C'' ''std''] \<and>
   get_referrers (projr (unset_obj_field ex_ext ex_ABC 12 ''bases''))
     (SObj 11 Type) (Some Type) (Some ''bases'') = Inr {} \<and>
   \<not> isl (delete ex_ext ex_ABC (SObj 12 Type)) \<and>
   refs_index_ok ex_ext (projr (delete ex_ext ex_ABC (SObj 12 Type))) \<and>
   id_to_data (projr (delete ex_ext ex_ABC (SObj 12 Type))) 12 = None \<and>
   get_referrers (projr (delete ex_ext ex_ABC (SObj 12 Type)))
     (SObj 11 Type) (Some Type) (Some ''bases'') = Inr {}"
proof -
  let ?dC = "[''name'' \<mapsto> QNameV ''C'' ''std'', ''bases'' \<mapsto> CollV [11]]"
  let ?Ss = "projr (set_obj_field ex_ext ex_ABC 12 ''bases'' (CollV [11, 10]))"
  let ?Su = "projr (unset_obj_field ex_ext ex_ABC 12 ''bases'')"
  let ?Sd = "projr (delete ex_ext ex_ABC (SObj 12 Type))"
  have d: "delete ex_ext ex_ABC (SObj 12 Type) = Inr ?Sd"
    using ex_delete by (cases "delete ex_ext ex_ABC (SObj 12 Type)") simp_all
  have s: "set_obj_field ex_ext ex_ABC 12 ''bases'' (CollV [11, 10]) = Inr ?Ss"
    using ex_set by (cases "set_obj_field ex_ext ex_ABC 12 ''bases'' (CollV [11, 10])") simp_all
  have u: "unset_obj_field ex_ext ex_ABC 12 ''bases'' = Inr ?Su"
    using ex_unset by (cases "unset_obj_field ex_ext ex_ABC 12 ''bases''") simp_all
  have t: "map_of (id_to_type ex_ABC) 12 = Some (SObj 12 Type)"
    and fresh: "id_to_data ex_AB 12 = None"
    and dd: "id_to_data ex_ABC 12 = Some ?dC"
    and e10: "refs_entry (refs_to ex_ABC) 10 (Type, ''bases'') = {11}"
    by (simp_all add: ex_ABC_def ex_AB_def refs_entry_def)
  have f: "''bases'' \<in> set (get_object_fields ex_ext Type)"
    by (simp add: ex_ext_def)
  have st11: "stores_ref ?dC ''bases'' 11 = stores_ref [''bases'' \<mapsto> CollV [11, 10]] ''bases'' 11"
    and new10: "stores_ref [''bases'' \<mapsto> CollV [11, 10]] ''bases'' 10"
    and old10: "\<not> stores_ref ?dC ''bases'' 10"
    by (simp_all add: stores_ref_def)
  note thA = referrers_index[where X = ex_ext and S = ex_AB and oid = 12
      and scls = "SObj 12 Type" and data = ?dC and Sa = ex_ABC]
  from thA[THEN conjunct2, THEN conjunct2, THEN conjunct1] ex_AB_ok ex_ABC_add fresh
  have okC: "refs_index_ok ex_ext ex_ABC" by simp
  note th = referrers_index[where X = ex_ext and S = ex_ABC and A = "SObj 12 Type"
      and B = "SObj 11 Type" and F = "''bases''"
      and obj = "SObj 12 Type" and Sd = ?Sd
      and oid' = 12 and field = "''bases''" and v = "CollV [11, 10]" and Ss = ?Ss
      and Su = ?Su and dat = ?dC and st = Type and f = "''bases''"]
  from th[THEN conjunct2, THEN conjunct2, THEN conjunct2, THEN conjunct2, THEN conjunct2, THEN conjunct1] okC s
  have okS: "refs_index_ok ex_ext ?Ss"
    and dS: "\<exists>d. id_to_data ex_ABC 12 = Some d \<and>
               id_to_data ?Ss = (id_to_data ex_ABC)(12 \<mapsto> d(''bases'' \<mapsto> CollV [11, 10]))"
    by simp_all
  from dS dd have dS12: "id_to_data ?Ss 12 =
      Some [''name'' \<mapsto> QNameV ''C'' ''std'', ''bases'' \<mapsto> CollV [11, 10]]"
    by auto
  from th[where r = 10, THEN conjunct2, THEN conjunct2, THEN conjunct2, THEN conjunct2, THEN conjunct2, THEN conjunct2, THEN conjunct2, THEN conjunct1] s dd t f new10 old10 e10
  have eS: "refs_entry (refs_to ?Ss) 10 (Type, ''bases'') = {11, 12}"
    by (simp add: insert_commute)
  from th[where r = 11, THEN conjunct2, THEN conjunct2, THEN conjunct2, THEN conjunct2, THEN conjunct2, THEN conjunct2, THEN conjunct2, THEN conjunct2, THEN conjunct1] s dd st11
  have uS: "refs_to ?Ss 11 = refs_to ex_ABC 11" by simp
  from th[THEN conjunct2, THEN conjunct2, THEN conjunct2, THEN conjunct2, THEN conjunct2, THEN conjunct2, THEN conjunct2, THEN conjunct2, THEN conjunct2, THEN conjunct1] okC u dd
  have okU: "refs_index_ok ex_ext ?Su"
    and dU: "id_to_data ?Su = (id_to_data ex_ABC)(12 \<mapsto> ?dC(''bases'' := None))"
    by simp_all
  from dU have dU12: "id_to_data ?Su 12 = Some [''name'' \<mapsto> QNameV ''C'' ''std'']"
    by simp
  from th[THEN conjunct2, THEN conjunct2, THEN conjunct2, THEN conjunct2, THEN conjunct1] okC d t
  have okD: "refs_index_ok ex_ext ?Sd"
    and dD: "id_to_data ?Sd = (id_to_data ex_ABC)(12 := None)"
    by simp_all
  from dD have dD12: "id_to_data ?Sd 12 = None" by simp
  from ex_AB_ok fresh ex_ABC_add okC ex_referrers_before ex_referrers
    ex_set okS dS12 e10 eS uS ex_set_referrers
    ex_unset okU dU12 ex_unset_referrers
    ex_delete okD dD12 ex_delete_referrers
  show ?thesis by (intro conjI)
qed

text \<open>
  Without the condition on \<open>add\<close> the correspondence is not kept: after \<open>C\<close>
  (identity 12, base \<open>B\<close>) is added again under its identity with no bases, \<open>C\<close> is
  still among the referrers of \<open>B\<close> under \<open>bases\<close> although its field \<open>bases\<close> no
  longer refers to \<open>B\<close>.
\<close>

theorem referrers_index_counterexample:
  "refs_index_ok ex_ext ex_ABC \<and>
   id_to_data ex_ABC 12 =
     Some [''name'' \<mapsto> QNameV ''C'' ''std'', ''bases'' \<mapsto> CollV [11]] \<and>
   \<not> isl (add ex_ext ex_ABC 12 (SObj 12 Type)
            [''name'' \<mapsto> QNameV ''D'' ''std'', ''bases'' \<mapsto> CollV []]) \<and>
   map_of (id_to_type (projr (add ex_ext ex_ABC 12 (SObj 12 Type)
            [''name'' \<mapsto> QNameV ''D'' ''std'', ''bases'' \<mapsto> CollV []]))) 12 =
     Some (SObj 12 Type) \<and>
   id_to_data (projr (add ex_ext ex_ABC 12 (SObj 12 Type)
            [''name'' \<mapsto> QNameV ''D'' ''std'', ''bases'' \<mapsto> CollV []])) 12 =
     Some [''name'' \<mapsto> QNameV ''D'' ''std'', ''bases'' \<mapsto> CollV []] \<and>
   \<not> stores_ref [''name'' \<mapsto> QNameV ''D'' ''std'', ''bases'' \<mapsto> CollV []] ''bases'' 11 \<and>
   get_referrers (projr (add ex_ext ex_ABC 12 (SObj 12 Type)
            [''name'' \<mapsto> QNameV ''D'' ''std'', ''bases'' \<mapsto> CollV []]))
     (SObj 11 Type) (Some Type) (Some ''bases'') = Inr {SObj 12 Type} \<and>
   \<not> refs_index_ok ex_ext (projr (add ex_ext ex_ABC 12 (SObj 12 Type)
            [''name'' \<mapsto> QNameV ''D'' ''std'', ''bases'' \<mapsto> CollV []]))"
proof -
  let ?dD = "[''name'' \<mapsto> QNameV ''D'' ''std'', ''bases'' \<mapsto> CollV []]"
  let ?Sr = "projr (add ex_ext ex_ABC 12 (SObj 12 Type) ?dD)"
  have dd: "id_to_data ex_ABC 12 =
     Some [''name'' \<mapsto> QNameV ''C'' ''std'', ''bases'' \<mapsto> CollV [11]]"
    by (simp add: ex_ABC_def)
  have ns: "\<not> stores_ref ?dD ''bases'' 11" by (simp add: stores_ref_def)
  have f: "''bases'' \<in> set (get_object_fields ex_ext (obj_type (SObj 12 Type)))"
    by (simp add: ex_ext_def)
  have t: "map_of (id_to_type ?Sr) (obj_id (SObj 12 Type)) = Some (SObj 12 Type)"
    using ex_readd_type by simp
  have no: "\<not> refs_index_ok ex_ext ?Sr"
  proof
    assume ok: "refs_index_ok ex_ext ?Sr"
    from get_referrers_corresponds[OF ok t f, of "SObj 11 Type"] ex_readd_referrers
    have "\<exists>d. id_to_data ?Sr 12 = Some d \<and> stores_ref d ''bases'' 11" by simp
    with ex_readd_data ns show False by simp
  qed
  from ex_ABC_ok dd ex_readd ex_readd_type ex_readd_data ns ex_readd_referrers no
  show ?thesis by (intro conjI)
qed

subsection \<open>Descendants\<close>

lemma get_descendants_no_depth:
  "get_descendants A S scls None depth = children_of A S scls"
  by (auto simp: children_of_def split: sum.splits)

lemmas query_defs = children_of_def find_children_def get_objects_def get_def get_by_name_def
  ex_acc_def ex_ABC_def data_get_def List.map_filter_def

lemma ex_children_10: "children_of ex_acc ex_ABC (SObj 10 Type) = Inr [SObj 11 Type]"
  by (simp add: query_defs)

lemma ex_children_11: "children_of ex_acc ex_ABC (SObj 11 Type) = Inr [SObj 12 Type]"
  by (simp add: query_defs)

lemma ex_children_12: "children_of ex_acc ex_ABC (SObj 12 Type) = Inr []"
  by (simp add: query_defs)

text \<open>
  C9. With \<open>max_depth\<close> omitted the guard \<open>max_depth is not None and depth < max_depth\<close>
  is false, so \<open>_get_descendants\<close> does not recurse and returns the direct children only
  (\<open>get_descendants_no_depth\<close>). In the catalog with \<open>C\<close> below \<open>B\<close> below \<open>A\<close>, the
  descendants of \<open>A\<close> come out as \<open>B\<close> alone, although \<open>C\<close> is a child of \<open>B\<close>; with
  \<open>max_depth = 1\<close> the same call returns \<open>C\<close> and \<open>B\<close>.
\<close>

theorem get_descendants_default_depth:
  "get_descendants ex_acc ex_ABC (SObj 10 Type) None 0 = Inr [SObj 11 Type] \<and>
   children_of ex_acc ex_ABC (SObj 11 Type) = Inr [SObj 12 Type] \<and>
   get_descendants ex_acc ex_ABC (SObj 10 Type) (Some 1) 0 = Inr [SObj 12 Type, SObj 11 Type]"
  by (simp add: ex_children_10 ex_children_11 ex_children_12)

section \<open>Properties of function call compilation\<close>


lemmas ex_defs = ex_env_def mk_param_def mk_func_def
  try_bind_func_args_def bind_params_def check_arg_def check_type_def check_any_def
  append_bound_def init_state_def Let_def to_bytes_def decode_ascii_def NO_MATCH_def

subsection \<open>Functions without parameters\<close>



subsection \<open>Candidate selection\<close>

lemma select_call_kept:
  assumes "\<not> (args = [] \<and> kwargs = [])"
  shows "map (try_bind_func_args E args kwargs) funcs = map Inr calls \<Longrightarrow>
         bc_args m \<noteq> None \<Longrightarrow>
         select_call E args kwargs funcs m =
           Inr (if used_implicit_casts m then
                  (case find (\<lambda>c. \<not> used_implicit_casts c)
                          (filter (\<lambda>c. bc_args c \<noteq> None) calls) of
                     Some c \<Rightarrow> c | None \<Rightarrow> m)
                else m)"
proof (induction funcs arbitrary: calls m)
  case Nil
  then show ?case by simp
next
  case (Cons f fs)
  then obtain c cs where calls: "calls = c # cs"
    and c: "try_bind_func_args E args kwargs f = Inr c"
    and cs: "map (try_bind_func_args E args kwargs) fs = map Inr cs"
    by (cases calls) auto
  show ?case
  proof (cases "bc_args c = None")
    case True
    with Cons.IH[OF cs Cons.prems(2)] c calls assms show ?thesis by simp
  next
    case False
    let ?m' = "if used_implicit_casts m \<and> \<not> used_implicit_casts c then c else m"
    have m': "bc_args ?m' \<noteq> None" using False Cons.prems(2) by simp
    have step: "select_call E args kwargs (f # fs) m = select_call E args kwargs fs ?m'"
      using c False Cons.prems(2) assms by (auto simp add: Let_def simp del: not_None_eq)
    show ?thesis
      unfolding step Cons.IH[OF cs m'] using calls False by simp
  qed
qed

lemma select_call_best:
  assumes "\<not> (args = [] \<and> kwargs = [])"
  shows "map (try_bind_func_args E args kwargs) funcs = map Inr calls \<Longrightarrow>
         select_call E args kwargs funcs NO_MATCH =
           Inr (let ms = filter (\<lambda>c. bc_args c \<noteq> None) calls in
                case find (\<lambda>c. \<not> used_implicit_casts c) ms of
                  Some c \<Rightarrow> c
                | None \<Rightarrow> (case ms of [] \<Rightarrow> NO_MATCH | m # _ \<Rightarrow> m))"
proof (induction funcs arbitrary: calls)
  case Nil
  then show ?case by simp
next
  case (Cons f fs)
  then obtain c cs where calls: "calls = c # cs"
    and c: "try_bind_func_args E args kwargs f = Inr c"
    and cs: "map (try_bind_func_args E args kwargs) fs = map Inr cs"
    by (cases calls) auto
  show ?case
  proof (cases "bc_args c = None")
    case True
    with Cons.IH[OF cs] c calls show ?thesis by simp
  next
    case False
    have step: "select_call E args kwargs (f # fs) NO_MATCH = select_call E args kwargs fs c"
      using c False by (simp add: NO_MATCH_def del: not_None_eq)
    show ?thesis
      unfolding step select_call_kept[OF assms cs False] using calls False
      by (auto simp: Let_def split: option.splits)
  qed
qed

text \<open>
  C4. With a best match already there, a new match takes its place exactly when the best
  match used an implicit cast and the new one used none; the loop then goes on, unless the
  call has no argument at all (then a second match ends it with an error, see C5). So for
  a call with arguments whose candidates are all tried, the call chosen is the first match
  without an implicit cast if there is one, and the first match otherwise.
\<close>

theorem select_call_prefers_uncast:
  "(try_bind_func_args E args kwargs func = Inr call \<and> bc_args call \<noteq> None \<and>
    bc_args matched_call \<noteq> None \<longrightarrow>
    select_call E args kwargs (func # funcs) matched_call =
      (if args = [] \<and> kwargs = [] then Inl (EdgeQLError NotUnique)
       else select_call E args kwargs funcs
              (if used_implicit_casts matched_call \<and> \<not> used_implicit_casts call
               then call else matched_call))) \<and>
   (\<not> (args = [] \<and> kwargs = []) \<and>
    map (try_bind_func_args E args kwargs) fs = map Inr calls \<longrightarrow>
    select_call E args kwargs fs NO_MATCH =
      Inr (let ms = filter (\<lambda>c. bc_args c \<noteq> None) calls in
           case find (\<lambda>c. \<not> used_implicit_casts c) ms of
             Some c \<Rightarrow> c
           | None \<Rightarrow> (case ms of [] \<Rightarrow> NO_MATCH | m # _ \<Rightarrow> m)))"
proof (intro conjI impI)
  assume "try_bind_func_args E args kwargs func = Inr call \<and> bc_args call \<noteq> None \<and>
    bc_args matched_call \<noteq> None"
  then show "select_call E args kwargs (func # funcs) matched_call =
      (if args = [] \<and> kwargs = [] then Inl (EdgeQLError NotUnique)
       else select_call E args kwargs funcs
              (if used_implicit_casts matched_call \<and> \<not> used_implicit_casts call
               then call else matched_call))"
    by (auto simp add: Let_def simp del: not_None_eq)
next
  assume a: "\<not> (args = [] \<and> kwargs = []) \<and>
    map (try_bind_func_args E args kwargs) fs = map Inr calls"
  then have 1: "\<not> (args = [] \<and> kwargs = [])"
    and 2: "map (try_bind_func_args E args kwargs) fs = map Inr calls" by simp_all
  show "select_call E args kwargs fs NO_MATCH =
      Inr (let ms = filter (\<lambda>c. bc_args c \<noteq> None) calls in
           case find (\<lambda>c. \<not> used_implicit_casts c) ms of
             Some c \<Rightarrow> c
           | None \<Rightarrow> (case ms of [] \<Rightarrow> NO_MATCH | m # _ \<Rightarrow> m))"
    by (rule select_call_best[OF 1 2])
qed

lemma ex_g64_call:
  "try_bind_func_args ex_env [(''std::int32'', Expr 7)] [] ex_g64 =
     Inr \<lparr> bc_func = Some ex_g64, bc_args = Some [Expr 7],
           bc_return_type = Some ''std::str'',
           used_implicit_casts = True, has_empty_variadic = False \<rparr>"
  by (simp add: ex_defs ex_g64_def)

lemma ex_g32_call:
  "try_bind_func_args ex_env [(''std::int32'', Expr 7)] [] ex_g32 =
     Inr \<lparr> bc_func = Some ex_g32, bc_args = Some [Expr 7],
           bc_return_type = Some ''std::str'',
           used_implicit_casts = False, has_empty_variadic = False \<rparr>"
  by (simp add: ex_defs ex_g32_def)

theorem select_call_prefers_uncast_witness:
  "try_bind_func_args ex_env [(''std::int32'', Expr 7)] [] ex_g32 =
     Inr \<lparr> bc_func = Some ex_g32, bc_args = Some [Expr 7],
           bc_return_type = Some ''std::str'',
           used_implicit_casts = False, has_empty_variadic = False \<rparr> \<and>
   select_call ex_env [(''std::int32'', Expr 7)] [] [ex_g32]
     \<lparr> bc_func = Some ex_g64, bc_args = Some [Expr 7],
       bc_return_type = Some ''std::str'',
       used_implicit_casts = True, has_empty_variadic = False \<rparr> =
     Inr \<lparr> bc_func = Some ex_g32, bc_args = Some [Expr 7],
           bc_return_type = Some ''std::str'',
           used_implicit_casts = False, has_empty_variadic = False \<rparr> \<and>
   map (try_bind_func_args ex_env [(''std::int32'', Expr 7)] []) [ex_g64, ex_g32] =
     map Inr
       [\<lparr> bc_func = Some ex_g64, bc_args = Some [Expr 7],
          bc_return_type = Some ''std::str'',
          used_implicit_casts = True, has_empty_variadic = False \<rparr>,
        \<lparr> bc_func = Some ex_g32, bc_args = Some [Expr 7],
          bc_return_type = Some ''std::str'',
          used_implicit_casts = False, has_empty_variadic = False \<rparr>] \<and>
   select_call ex_env [(''std::int32'', Expr 7)] [] [ex_g64, ex_g32] NO_MATCH =
     Inr \<lparr> bc_func = Some ex_g32, bc_args = Some [Expr 7],
           bc_return_type = Some ''std::str'',
           used_implicit_casts = False, has_empty_variadic = False \<rparr>"
  using select_call_prefers_uncast[of ex_env "[(''std::int32'', Expr 7)]" "[]" ex_g32
      "\<lparr> bc_func = Some ex_g32, bc_args = Some [Expr 7],
         bc_return_type = Some ''std::str'',
         used_implicit_casts = False, has_empty_variadic = False \<rparr>"
      "\<lparr> bc_func = Some ex_g64, bc_args = Some [Expr 7],
         bc_return_type = Some ''std::str'',
         used_implicit_casts = True, has_empty_variadic = False \<rparr>"
      "[]" "[ex_g64, ex_g32]"
      "[\<lparr> bc_func = Some ex_g64, bc_args = Some [Expr 7],
          bc_return_type = Some ''std::str'',
          used_implicit_casts = True, has_empty_variadic = False \<rparr>,
        \<lparr> bc_func = Some ex_g32, bc_args = Some [Expr 7],
          bc_return_type = Some ''std::str'',
          used_implicit_casts = False, has_empty_variadic = False \<rparr>]"]
  by (simp add: ex_g64_call ex_g32_call)












subsection \<open>The binding steps\<close>

lemma check_arg_fields:
  "check_arg E a p s = Some s' \<Longrightarrow>
   bound_param_args s' = bound_param_args s \<and> populate_defaults s' = populate_defaults s \<and>
   empty_variadic s' = empty_variadic s"
  by (auto simp: check_arg_def check_type_def check_any_def
           split: if_splits option.splits prod.splits)

lemma bind_named_variadic_flag:
  "bind_named E kwargs ps n s = Some (n', ps', s') \<Longrightarrow> empty_variadic s' = empty_variadic s"
proof (induction ps arbitrary: n s)
  case Nil
  then show ?case by simp
next
  case (Cons p ps)
  then show ?case
    by (auto simp: append_bound_def split: if_splits option.splits prod.splits
             dest!: check_arg_fields)
qed

lemma bind_variadic_flag:
  "bind_variadic E vt p as s = Some s' \<Longrightarrow> empty_variadic s' = empty_variadic s"
proof (induction as arbitrary: s)
  case Nil
  then show ?case by simp
next
  case (Cons a as)
  then show ?case
    by (cases a) (auto simp: append_bound_def split: option.splits dest!: check_arg_fields)
qed

lemma bind_positional_flag:
  "bind_positional E as ps s = Inr (Some (ps', s')) \<Longrightarrow> empty_variadic s' = empty_variadic s"
proof (induction E as ps s rule: bind_positional.induct)
  case (1 E ps s)
  then show ?case by simp
next
  case (2 E arg_type arg_val rest s)
  then show ?case by simp
next
  case (3 E arg_type arg_val rest param ps s)
  then show ?case
    by (auto simp: append_bound_def split: if_splits list.splits option.splits
             dest!: check_arg_fields bind_variadic_flag)
qed

lemma bind_trailing_flag:
  "bind_trailing ps s = Inr (Some s') \<Longrightarrow>
   empty_variadic s' = (empty_variadic s \<or> (\<exists>p\<in>set ps. pkind p = VARIADIC))"
  by (induction ps arbitrary: s)
     (auto simp: append_bound_def split: parameter_kind.splits if_splits)

lemma bind_trailing_result:
  "\<forall>p\<in>set ps. pkind p \<noteq> NAMED_ONLY \<Longrightarrow>
   bind_trailing ps s =
     (if \<exists>p\<in>set ps. pkind p = POSITIONAL \<and> pdefault p = None then Inr None
      else Inr (Some (s\<lparr> bound_param_args :=
                           bound_param_args s @
                             map (\<lambda>p. (p, NoneIR)) (filter (\<lambda>p. pkind p = POSITIONAL) ps),
                         populate_defaults :=
                           populate_defaults s \<or> (\<exists>p\<in>set ps. pkind p = POSITIONAL),
                         empty_variadic :=
                           empty_variadic s \<or> (\<exists>p\<in>set ps. pkind p = VARIADIC) \<rparr>)))"
proof (induction ps arbitrary: s)
  case Nil
  then show ?case by simp
next
  case (Cons p ps)
  then show ?case
    by (cases "pkind p") (auto simp: append_bound_def)
qed

lemma try_bind_some_state:
  "params func \<noteq> [] \<Longrightarrow> try_bind_func_args E args kwargs func = Inr bc \<Longrightarrow>
   bc_args bc \<noteq> None \<Longrightarrow>
   \<exists>s. bind_params E args kwargs (pg_params (as_pg_params func)) = Inr (Some s) \<and>
       has_empty_variadic bc = empty_variadic s \<and>
       used_implicit_casts bc = used_implicit_cast s"
  by (auto simp: try_bind_func_args_def Let_def NO_MATCH_def
           split: if_splits sum.splits option.splits prod.splits)

text \<open>
  C7. Step 3 runs over the parameters that steps 1 and 2 left (none of them NAMED ONLY,
  by the layout of the parameters). It gives no match exactly when one of them is
  POSITIONAL and has no default; otherwise every POSITIONAL one is appended as an entry
  to be filled from its default and \<open>populate_defaults\<close> is set, and a VARIADIC one only
  sets the empty-variadic flag. The flag of a resulting \<open>BoundCall\<close> says exactly whether a
  VARIADIC parameter was left to step 3.
\<close>

theorem trailing_defaults:
  "((\<forall>p\<in>set ps. pkind p \<noteq> NAMED_ONLY) \<longrightarrow>
      bind_trailing ps s =
        (if \<exists>p\<in>set ps. pkind p = POSITIONAL \<and> pdefault p = None then Inr None
         else Inr (Some (s\<lparr> bound_param_args :=
                              bound_param_args s @
                                map (\<lambda>p. (p, NoneIR))
                                  (filter (\<lambda>p. pkind p = POSITIONAL) ps),
                            populate_defaults :=
                              populate_defaults s \<or> (\<exists>p\<in>set ps. pkind p = POSITIONAL),
                            empty_variadic :=
                              empty_variadic s \<or> (\<exists>p\<in>set ps. pkind p = VARIADIC) \<rparr>)))) \<and>
   (params func \<noteq> [] \<and> try_bind_func_args E args kwargs func = Inr bc \<and>
    bc_args bc \<noteq> None \<longrightarrow>
      (\<exists>n ps1 s1 ps2 s2.
         bind_named E kwargs (pg_params (as_pg_params func)) 0 init_state =
           Some (n, ps1, s1) \<and>
         bind_positional E args ps1 s1 = Inr (Some (ps2, s2)) \<and>
         has_empty_variadic bc = (\<exists>p\<in>set ps2. pkind p = VARIADIC)))"
proof (intro conjI impI)
  assume "\<forall>p\<in>set ps. pkind p \<noteq> NAMED_ONLY"
  then show "bind_trailing ps s =
        (if \<exists>p\<in>set ps. pkind p = POSITIONAL \<and> pdefault p = None then Inr None
         else Inr (Some (s\<lparr> bound_param_args :=
                              bound_param_args s @
                                map (\<lambda>p. (p, NoneIR))
                                  (filter (\<lambda>p. pkind p = POSITIONAL) ps),
                            populate_defaults :=
                              populate_defaults s \<or> (\<exists>p\<in>set ps. pkind p = POSITIONAL),
                            empty_variadic :=
                              empty_variadic s \<or> (\<exists>p\<in>set ps. pkind p = VARIADIC) \<rparr>)))"
    by (rule bind_trailing_result)
next
  assume a: "params func \<noteq> [] \<and> try_bind_func_args E args kwargs func = Inr bc \<and>
    bc_args bc \<noteq> None"
  then obtain s where
    s: "bind_params E args kwargs (pg_params (as_pg_params func)) = Inr (Some s)"
    and f: "has_empty_variadic bc = empty_variadic s"
    using try_bind_some_state[of func E args kwargs bc] by blast
  from s obtain n ps1 s1 ps2 s2 where
    1: "bind_named E kwargs (pg_params (as_pg_params func)) 0 init_state = Some (n, ps1, s1)"
    and 2: "bind_positional E args ps1 s1 = Inr (Some (ps2, s2))"
    and 3: "bind_trailing ps2 s2 = Inr (Some s)"
    by (auto simp: bind_params_def split: option.splits prod.splits if_splits sum.splits)
  have "empty_variadic s1 = False"
    using bind_named_variadic_flag[OF 1] by (simp add: init_state_def)
  then have "empty_variadic s2 = False"
    using bind_positional_flag[OF 2] by simp
  then have "empty_variadic s = (\<exists>p\<in>set ps2. pkind p = VARIADIC)"
    using bind_trailing_flag[OF 3] by simp
  with 1 2 f show "\<exists>n ps1 s1 ps2 s2.
        bind_named E kwargs (pg_params (as_pg_params func)) 0 init_state = Some (n, ps1, s1) \<and>
        bind_positional E args ps1 s1 = Inr (Some (ps2, s2)) \<and>
        has_empty_variadic bc = (\<exists>p\<in>set ps2. pkind p = VARIADIC)" by blast
qed

lemma ex_w_call:
  "try_bind_func_args ex_env [(''std::int64'', Expr 7)] [] ex_w =
     Inr \<lparr> bc_func = Some ex_w,
           bc_args = Some [Expr 7, EnsureSet (IRDefault ''b'') ''std::int64''],
           bc_return_type = Some ''std::str'',
           used_implicit_casts = False, has_empty_variadic = True \<rparr>"
  by (simp add: ex_defs ex_w_def ex_w_params_def)

theorem trailing_defaults_witness:
  "list_all (\<lambda>p. pkind p \<noteq> NAMED_ONLY) (tl ex_w_params) \<and>
   bind_trailing (tl ex_w_params) init_state =
     Inr (Some \<lparr> used_implicit_cast = False, resolved_poly_base_type = None,
                 bound_param_args = [(mk_param ''b'' POSITIONAL ''std::int64'' (Some ''0''),
                                      NoneIR)],
                 populate_defaults = True, empty_variadic = True \<rparr>) \<and>
   params ex_w \<noteq> [] \<and>
   try_bind_func_args ex_env [(''std::int64'', Expr 7)] [] ex_w =
     Inr \<lparr> bc_func = Some ex_w,
           bc_args = Some [Expr 7, EnsureSet (IRDefault ''b'') ''std::int64''],
           bc_return_type = Some ''std::str'',
           used_implicit_casts = False, has_empty_variadic = True \<rparr> \<and>
   bind_trailing [mk_param ''a'' POSITIONAL ''std::int64'' None] init_state = Inr None"
proof -
  have 1: "list_all (\<lambda>p. pkind p \<noteq> NAMED_ONLY) (tl ex_w_params)"
    by (simp add: ex_w_params_def mk_param_def)
  have 2: "bind_trailing (tl ex_w_params) init_state =
     Inr (Some \<lparr> used_implicit_cast = False, resolved_poly_base_type = None,
                 bound_param_args = [(mk_param ''b'' POSITIONAL ''std::int64'' (Some ''0''),
                                      NoneIR)],
                 populate_defaults = True, empty_variadic = True \<rparr>)"
    by (simp add: ex_w_params_def mk_param_def init_state_def append_bound_def)
  have 3: "params ex_w \<noteq> []"
    by (simp add: ex_w_def ex_w_params_def mk_func_def)
  have 4: "bind_trailing [mk_param ''a'' POSITIONAL ''std::int64'' None] init_state = Inr None"
    by (simp add: mk_param_def)
  show ?thesis
    using trailing_defaults[of "tl ex_w_params" init_state ex_w ex_env
      "[(''std::int64'', Expr 7)]" "[]"
      "\<lparr> bc_func = Some ex_w,
         bc_args = Some [Expr 7, EnsureSet (IRDefault ''b'') ''std::int64''],
         bc_return_type = Some ''std::str'',
         used_implicit_casts = False, has_empty_variadic = True \<rparr>"]
    by (simp only: 1 2 3 4 ex_w_call simp_thms)
qed

lemma check_type_resolved:
  "resolved_poly_base_type (snd (check_type E a p s)) = resolved_poly_base_type s"
  by (simp add: check_type_def)



lemma check_arg_resolved:
  "check_arg E a p s = Some s' \<Longrightarrow> resolved_poly_base_type s = Some r \<Longrightarrow>
   resolved_poly_base_type s' = Some r"
  by (auto simp: check_arg_def check_type_def check_any_def
           split: if_splits option.splits prod.splits)

lemma check_arg_agree:
  "check_arg E a p s = Some s' \<Longrightarrow> is_polymorphic E p \<Longrightarrow>
   \<not> (in_polymorphic_func E \<and> is_polymorphic E a \<and> p = a) \<Longrightarrow>
   resolve_polymorphic E p a = resolved_poly_base_type s' \<and>
   resolved_poly_base_type s' \<noteq> None"
  by (auto simp: check_arg_def check_type_def check_any_def
           split: if_splits option.splits prod.splits)


lemma bind_named_resolved:
  "bind_named E kwargs ps n s = Some (n', ps', s') \<Longrightarrow> resolved_poly_base_type s = Some r \<Longrightarrow>
   resolved_poly_base_type s' = Some r"
proof (induction ps arbitrary: n s)
  case Nil
  then show ?case by simp
next
  case (Cons p ps)
  show ?case
  proof (cases "pkind p = NAMED_ONLY")
    case False
    with Cons.prems show ?thesis by simp
  next
    case True
    show ?thesis
    proof (cases "map_of kwargs (pname p)")
      case None
      with True Cons.prems have
        "bind_named E kwargs ps n (append_bound p NoneIR (s\<lparr>populate_defaults := True\<rparr>)) =
           Some (n', ps', s')"
        by (simp split: if_splits)
      from Cons.IH[OF this] Cons.prems(2) show ?thesis by (simp add: append_bound_def)
    next
      case (Some av)
      obtain a v where av: "av = (a, v)" by (cases av)
      with True Some Cons.prems obtain s1 where
        c: "check_arg E a (ptype p) s = Some s1"
        and b: "bind_named E kwargs ps (n + 1) (append_bound p v s1) = Some (n', ps', s')"
        by (auto split: option.splits)
      from check_arg_resolved[OF c Cons.prems(2)] Cons.IH[OF b] show ?thesis
        by (simp add: append_bound_def)
    qed
  qed
qed

lemma bind_variadic_resolved:
  "bind_variadic E vt p as s = Some s' \<Longrightarrow> resolved_poly_base_type s = Some r \<Longrightarrow>
   resolved_poly_base_type s' = Some r"
proof (induction as arbitrary: s)
  case Nil
  then show ?case by simp
next
  case (Cons x as)
  obtain a v where x: "x = (a, v)" by (cases x)
  with Cons.prems obtain s1 where c: "check_arg E a vt s = Some s1"
    and b: "bind_variadic E vt p as (append_bound p v s1) = Some s'"
    by (auto split: option.splits)
  from check_arg_resolved[OF c Cons.prems(2)] Cons.IH[OF b] show ?case
    by (simp add: append_bound_def)
qed

lemma bind_positional_resolved:
  "bind_positional E as ps s = Inr (Some (ps', s')) \<Longrightarrow> resolved_poly_base_type s = Some r \<Longrightarrow>
   resolved_poly_base_type s' = Some r"
proof (induction E as ps s rule: bind_positional.induct)
  case (1 E ps s)
  then show ?case by simp
next
  case (2 E arg_type arg_val rest s)
  then show ?case by simp
next
  case (3 E a v rest param ps s)
  show ?case
  proof (cases "pkind param = VARIADIC")
    case True
    with "3.prems" obtain vt vts s1 s2 where
      "check_arg E a vt s = Some s1"
      "bind_variadic E vt param rest (append_bound param v s1) = Some s2" "s2 = s'"
      by (auto split: if_splits list.splits option.splits)
    with check_arg_resolved[of E a vt s s1 r]
      bind_variadic_resolved[of E vt param rest "append_bound param v s1" s2 r] "3.prems"(2)
    show ?thesis by (simp add: append_bound_def)
  next
    case False
    with "3.prems" have nn: "pkind param \<noteq> NAMED_ONLY" by (auto split: if_splits)
    with False "3.prems" obtain s1 where c: "check_arg E a (ptype param) s = Some s1"
      and b: "bind_positional E rest ps (append_bound param v s1) = Inr (Some (ps', s'))"
      by (auto split: option.splits)
    from check_arg_resolved[OF c "3.prems"(2)] "3.IH"[OF nn False c b] show ?thesis
      by (simp add: append_bound_def)
  qed
qed

lemma bind_trailing_resolved:
  "bind_trailing ps s = Inr (Some s') \<Longrightarrow> resolved_poly_base_type s' = resolved_poly_base_type s"
  by (induction ps arbitrary: s)
     (auto simp: append_bound_def split: parameter_kind.splits if_splits)

lemma bind_positional_agree:
  "\<forall>p\<in>set ps. pkind p = POSITIONAL \<Longrightarrow>
   bind_positional E as ps s = Inr (Some (ps', s')) \<Longrightarrow>
   \<forall>(a, p)\<in>set (zip (map fst as) ps).
     is_polymorphic E (ptype p) \<and>
     \<not> (in_polymorphic_func E \<and> is_polymorphic E a \<and> ptype p = a) \<longrightarrow>
     resolve_polymorphic E (ptype p) a = resolved_poly_base_type s' \<and>
     resolved_poly_base_type s' \<noteq> None"
proof (induction E as ps s rule: bind_positional.induct)
  case (1 E ps s)
  then show ?case by simp
next
  case (2 E arg_type arg_val rest s)
  then show ?case by simp
next
  case (3 E a v rest param ps s)
  then have k: "pkind param = POSITIONAL" and ks: "\<forall>p\<in>set ps. pkind p = POSITIONAL"
    by simp_all
  with "3.prems" obtain s1 where c: "check_arg E a (ptype param) s = Some s1"
      and b: "bind_positional E rest ps (append_bound param v s1) = Inr (Some (ps', s'))"
    by (auto split: option.splits)
  have nn: "pkind param \<noteq> NAMED_ONLY" and nv: "pkind param \<noteq> VARIADIC" using k by simp_all
  note IH = "3.IH"[OF nn nv c ks b]
  have head: "is_polymorphic E (ptype param) \<and>
     \<not> (in_polymorphic_func E \<and> is_polymorphic E a \<and> ptype param = a) \<longrightarrow>
     resolve_polymorphic E (ptype param) a = resolved_poly_base_type s' \<and>
     resolved_poly_base_type s' \<noteq> None"
  proof
    assume h: "is_polymorphic E (ptype param) \<and>
     \<not> (in_polymorphic_func E \<and> is_polymorphic E a \<and> ptype param = a)"
    with check_arg_agree[OF c] obtain r where
      r: "resolve_polymorphic E (ptype param) a = Some r" "resolved_poly_base_type s1 = Some r"
      by auto
    then have "resolved_poly_base_type (append_bound param v s1) = Some r"
      by (simp add: append_bound_def)
    from bind_positional_resolved[OF b this] r show
      "resolve_polymorphic E (ptype param) a = resolved_poly_base_type s' \<and>
       resolved_poly_base_type s' \<noteq> None" by simp
  qed
  from head IH show ?case by simp
qed


lemma bind_named_positional:
  "\<forall>p\<in>set ps. pkind p = POSITIONAL \<Longrightarrow> bind_named E kwargs ps n s = Some (n, ps, s)"
  by (cases ps) auto


lemma bind_params_positional_agree:
  assumes pos: "\<forall>p\<in>set ps. pkind p = POSITIONAL"
    and b: "bind_params E args kwargs ps = Inr (Some s)"
  shows "\<forall>(a, p)\<in>set (zip (map fst args) ps).
     is_polymorphic E (ptype p) \<and>
     \<not> (in_polymorphic_func E \<and> is_polymorphic E a \<and> ptype p = a) \<longrightarrow>
     resolve_polymorphic E (ptype p) a = resolved_poly_base_type s \<and>
     resolved_poly_base_type s \<noteq> None"
proof -
  from b obtain ps2 s2 where
    2: "bind_positional E args ps init_state = Inr (Some (ps2, s2))"
    and 3: "bind_trailing ps2 s2 = Inr (Some s)"
    by (auto simp: bind_params_def bind_named_positional[OF pos]
             split: option.splits prod.splits if_splits sum.splits)
  from bind_positional_agree[OF pos 2] bind_trailing_resolved[OF 3] show ?thesis by simp
qed








subsection \<open>The defaults bitmask\<close>

lemma populate_length:
  "populate E eq res i b = Inr (b', m) \<Longrightarrow> length b' = length b"
proof (induction b arbitrary: i b' m)
  case Nil
  then show ?case by simp
next
  case (Cons e b)
  obtain p v where e: "e = (p, v)" by (cases e)
  from Cons.prems e obtain b1 m1 where r: "populate E eq res (i + 1) b = Inr (b1, m1)"
    and l: "length b' = Suc (length b1)"
    by (auto simp: Let_def split: if_splits sum.splits prod.splits)
  from Cons.IH[OF r] l show ?case by simp
qed

lemma populate_bits:
  "populate E eq res i b = Inr (b', m) \<Longrightarrow>
   bit m n = (i \<le> n \<and> n - i < length b \<and> snd (b ! (n - i)) = NoneIR)"
proof (induction b arbitrary: i b' m n)
  case Nil
  then show ?case by simp
next
  case (Cons e b)
  obtain p v where e: "e = (p, v)" by (cases e)
  from Cons.prems e obtain b1 m1 where r: "populate E eq res (i + 1) b = Inr (b1, m1)"
    and m: "m = (if v \<noteq> NoneIR then m1 else or (push_bit i 1) m1)"
    by (auto simp: Let_def split: if_splits sum.splits prod.splits)
  note IH = Cons.IH[OF r, of n]
  have tail: "bit m1 n = (Suc i \<le> n \<and> n - Suc i < length b \<and> snd (b ! (n - Suc i)) = NoneIR)"
    using IH by simp
  show ?case
  proof (cases "n = i")
    case True
    with tail m e show ?thesis by (auto simp: bit_simps)
  next
    case False
    have "bit m n = bit m1 n"
      using m False by (auto simp: bit_simps)
    moreover have "i \<le> n \<Longrightarrow> n - i = Suc (n - Suc i)" using False by arith
    ultimately show ?thesis using tail False e
      by (auto simp: nth_Cons split: nat.splits)
  qed
qed

lemma populate_kept:
  "populate E eq res i b = Inr (b', m) \<Longrightarrow> k < length b \<Longrightarrow> snd (b ! k) \<noteq> NoneIR \<Longrightarrow>
   b' ! k = b ! k"
proof (induction b arbitrary: i b' m k)
  case Nil
  then show ?case by simp
next
  case (Cons e b)
  obtain p v where e: "e = (p, v)" by (cases e)
  from Cons.prems(1) e obtain b1 m1 x where r: "populate E eq res (i + 1) b = Inr (b1, m1)"
    and b': "b' = x # b1" and x: "v \<noteq> NoneIR \<longrightarrow> x = (p, v)"
    by (auto simp: Let_def split: if_splits sum.splits prod.splits)
  show ?case
  proof (cases k)
    case 0
    with Cons.prems e b' x show ?thesis by simp
  next
    case (Suc j)
    with Cons.prems Cons.IH[OF r, of j] b' show ?thesis by simp
  qed
qed

lemma bit_le_bytes:
  "v < 256 ^ n \<Longrightarrow> bit v i = (i div 8 < n \<and> bit (le_bytes n v ! (i div 8)) (i mod 8))"
proof (induction n arbitrary: v i)
  case 0
  then show ?case by simp
next
  case (Suc n)
  then have d: "v div 256 < 256 ^ n"
    by (simp add: less_mult_imp_div_less mult.commute)
  show ?case
  proof (cases "i < 8")
    case True
    have "bit (v mod 256) i = bit v i"
      using True bit_take_bit_iff[of 8 v i] by (simp add: take_bit_eq_mod)
    with True show ?thesis by simp
  next
    case False
    then obtain j where j: "i = 8 + j" using le_Suc_ex[of 8 i] by auto
    have "bit (v div 256) j = bit v i"
      using bit_drop_bit_eq[of 8 v] j by (simp add: drop_bit_eq_div bit_iff_odd_drop_bit add.commute)
    moreover have "i div 8 = Suc (j div 8)" "i mod 8 = j mod 8" using j by simp_all
    ultimately show ?thesis using Suc.IH[OF d, of j] by simp
  qed
qed

lemma le_bytes_length: "length (le_bytes n v) = n"
  by (induction n arbitrary: v) simp_all

lemma le_bytes_byte: "k < n \<Longrightarrow> le_bytes n v ! k < 256"
proof (induction n arbitrary: v k)
  case 0
  then show ?case by simp
next
  case (Suc n)
  then show ?case by (cases k) simp_all
qed


lemma bind_named_none:
  assumes kw: "\<forall>(k, t, v)\<in>set kwargs. v \<noteq> NoneIR"
  shows "bind_named E kwargs ps n s = Some (n', ps', s') \<Longrightarrow>
     populate_defaults s \<or> (\<forall>e\<in>set (bound_param_args s). snd e \<noteq> NoneIR) \<Longrightarrow>
     populate_defaults s' \<or> (\<forall>e\<in>set (bound_param_args s'). snd e \<noteq> NoneIR)"
proof (induction ps arbitrary: n s)
  case Nil
  then show ?case by simp
next
  case (Cons p ps)
  show ?case
  proof (cases "pkind p = NAMED_ONLY")
    case False
    with Cons.prems show ?thesis by simp
  next
    case True
    show ?thesis
    proof (cases "map_of kwargs (pname p)")
      case None
      with True Cons.prems have
        "bind_named E kwargs ps n (append_bound p NoneIR (s\<lparr>populate_defaults := True\<rparr>)) =
           Some (n', ps', s')"
        by (simp split: if_splits)
      from Cons.IH[OF this] show ?thesis by (simp add: append_bound_def)
    next
      case (Some av)
      obtain a v where av: "av = (a, v)" by (cases av)
      with Some have "(pname p, a, v) \<in> set kwargs" by (simp add: map_of_SomeD)
      with kw have v: "v \<noteq> NoneIR" by auto
      from av True Some Cons.prems obtain s1 where
        c: "check_arg E a (ptype p) s = Some s1"
        and b: "bind_named E kwargs ps (n + 1) (append_bound p v s1) = Some (n', ps', s')"
        by (auto split: option.splits)
      from check_arg_fields[OF c] Cons.prems(2) v
      have "populate_defaults (append_bound p v s1) \<or>
            (\<forall>e\<in>set (bound_param_args (append_bound p v s1)). snd e \<noteq> NoneIR)"
        by (auto simp: append_bound_def)
      from Cons.IH[OF b this] show ?thesis .
    qed
  qed
qed

lemma bind_variadic_none:
  "\<forall>(t, v)\<in>set as. v \<noteq> NoneIR \<Longrightarrow> bind_variadic E vt p as s = Some s' \<Longrightarrow>
   populate_defaults s \<or> (\<forall>e\<in>set (bound_param_args s). snd e \<noteq> NoneIR) \<Longrightarrow>
   populate_defaults s' \<or> (\<forall>e\<in>set (bound_param_args s'). snd e \<noteq> NoneIR)"
proof (induction as arbitrary: s)
  case Nil
  then show ?case by simp
next
  case (Cons x as)
  obtain a v where x: "x = (a, v)" by (cases x)
  with Cons.prems have v: "v \<noteq> NoneIR" and rest: "\<forall>(t, v)\<in>set as. v \<noteq> NoneIR" by auto
  from x Cons.prems obtain s1 where c: "check_arg E a vt s = Some s1"
    and b: "bind_variadic E vt p as (append_bound p v s1) = Some s'"
    by (auto split: option.splits)
  from check_arg_fields[OF c] Cons.prems(3) v
  have "populate_defaults (append_bound p v s1) \<or>
        (\<forall>e\<in>set (bound_param_args (append_bound p v s1)). snd e \<noteq> NoneIR)"
    by (auto simp: append_bound_def)
  from Cons.IH[OF rest b this] show ?case .
qed

lemma bind_positional_none:
  "\<forall>(t, v)\<in>set as. v \<noteq> NoneIR \<Longrightarrow> bind_positional E as ps s = Inr (Some (ps', s')) \<Longrightarrow>
   populate_defaults s \<or> (\<forall>e\<in>set (bound_param_args s). snd e \<noteq> NoneIR) \<Longrightarrow>
   populate_defaults s' \<or> (\<forall>e\<in>set (bound_param_args s'). snd e \<noteq> NoneIR)"
proof (induction E as ps s rule: bind_positional.induct)
  case (1 E ps s)
  then show ?case by simp
next
  case (2 E arg_type arg_val rest s)
  then show ?case by simp
next
  case (3 E a v rest param ps s)
  from "3.prems"(1) have v: "v \<noteq> NoneIR" and rest: "\<forall>(t, v)\<in>set rest. v \<noteq> NoneIR" by auto
  show ?case
  proof (cases "pkind param = VARIADIC")
    case True
    with "3.prems" obtain vt s1 where
      c: "check_arg E a vt s = Some s1"
      and b: "bind_variadic E vt param rest (append_bound param v s1) = Some s'"
      by (auto split: if_splits list.splits option.splits)
    from check_arg_fields[OF c] "3.prems"(3) v
    have "populate_defaults (append_bound param v s1) \<or>
          (\<forall>e\<in>set (bound_param_args (append_bound param v s1)). snd e \<noteq> NoneIR)"
      by (auto simp: append_bound_def)
    from bind_variadic_none[OF rest b this] show ?thesis .
  next
    case False
    with "3.prems" have nn: "pkind param \<noteq> NAMED_ONLY" by (auto split: if_splits)
    with False "3.prems" obtain s1 where c: "check_arg E a (ptype param) s = Some s1"
      and b: "bind_positional E rest ps (append_bound param v s1) = Inr (Some (ps', s'))"
      by (auto split: option.splits)
    from check_arg_fields[OF c] "3.prems"(3) v
    have "populate_defaults (append_bound param v s1) \<or>
          (\<forall>e\<in>set (bound_param_args (append_bound param v s1)). snd e \<noteq> NoneIR)"
      by (auto simp: append_bound_def)
    from "3.IH"[OF nn False c rest b this] show ?thesis .
  qed
qed

lemma bind_trailing_none:
  "bind_trailing ps s = Inr (Some s') \<Longrightarrow>
   populate_defaults s \<or> (\<forall>e\<in>set (bound_param_args s). snd e \<noteq> NoneIR) \<Longrightarrow>
   populate_defaults s' \<or> (\<forall>e\<in>set (bound_param_args s'). snd e \<noteq> NoneIR)"
proof (induction ps arbitrary: s)
  case Nil
  then show ?case by simp
next
  case (Cons p ps)
  show ?case
  proof (cases "pkind p")
    case POSITIONAL
    with Cons.prems have
      "bind_trailing ps (append_bound p NoneIR (s\<lparr>populate_defaults := True\<rparr>)) = Inr (Some s')"
      by (simp split: if_splits)
    from Cons.IH[OF this] show ?thesis by (simp add: append_bound_def)
  next
    case NAMED_ONLY
    with Cons.prems show ?thesis by simp
  next
    case VARIADIC
    with Cons.prems have "bind_trailing ps (s\<lparr>empty_variadic := True\<rparr>) = Inr (Some s')"
      by simp
    from Cons.IH[OF this] Cons.prems(2) show ?thesis by simp
  qed
qed

lemma bind_params_none:
  assumes "\<forall>(t, v)\<in>set args. v \<noteq> NoneIR" "\<forall>(k, t, v)\<in>set kwargs. v \<noteq> NoneIR"
    and b: "bind_params E args kwargs ps = Inr (Some s)"
  shows "populate_defaults s \<or> (\<forall>e\<in>set (bound_param_args s). snd e \<noteq> NoneIR)"
proof -
  from b obtain n ps1 s1 ps2 s2 where
    1: "bind_named E kwargs ps 0 init_state = Some (n, ps1, s1)"
    and 2: "bind_positional E args ps1 s1 = Inr (Some (ps2, s2))"
    and 3: "bind_trailing ps2 s2 = Inr (Some s)"
    by (auto simp: bind_params_def split: option.splits prod.splits if_splits sum.splits)
  have "populate_defaults init_state \<or>
        (\<forall>e\<in>set (bound_param_args (init_state :: 'a bind_state)). snd e \<noteq> NoneIR)"
    by (simp add: init_state_def)
  from bind_trailing_none[OF 3 bind_positional_none[OF assms(1) 2
        bind_named_none[OF assms(2) 1 this]]]
  show ?thesis .
qed

lemma mask_text_bits:
  assumes "to_bytes m n = Inr bm" "decode_ascii bm = Inr chars"
  shows "length chars = n \<and>
         (\<forall>i. (i div 8 < length chars \<and> bit (of_char (chars ! (i div 8)) :: nat) (i mod 8)) =
               bit m i)"
proof -
  from assms(1) have m: "m < 256 ^ n" and bm: "bm = le_bytes n m"
    by (auto simp: to_bytes_def split: if_splits)
  from assms(2) have chars: "chars = map char_of bm"
    by (auto simp: decode_ascii_def split: if_splits)
  have len: "length chars = n" using chars bm by (simp add: le_bytes_length)
  have "(i div 8 < length chars \<and> bit (of_char (chars ! (i div 8)) :: nat) (i mod 8)) = bit m i"
    for i
  proof (cases "i div 8 < n")
    case True
    then have "of_char (chars ! (i div 8)) = (le_bytes n m ! (i div 8) :: nat)"
      using chars bm le_bytes_byte[OF True, of m] by (simp add: le_bytes_length)
    with True len bit_le_bytes[OF m, of i] show ?thesis by simp
  next
    case False
    with len bit_le_bytes[OF m, of i] show ?thesis by simp
  qed
  with len show ?thesis by simp
qed

lemma try_bind_edgeql_args:
  "params func \<noteq> [] \<Longrightarrow> language func = EdgeQL \<Longrightarrow>
   try_bind_func_args E args kwargs func = Inr bc \<Longrightarrow> bc_args bc = Some bargs \<Longrightarrow>
   \<exists>s bytes_t b m bm chars.
     bind_params E args kwargs (pg_params (as_pg_params func)) = Inr (Some s) \<and>
     std_bytes E = Some bytes_t \<and>
     (if populate_defaults s
        then populate E True (resolved_poly_base_type s) 0 (bound_param_args s)
      else Inr (bound_param_args s, 0)) = Inr (b, m) \<and>
     to_bytes m (length (pg_params (as_pg_params func)) div 8 + 1) = Inr bm \<and>
     decode_ascii bm = Inr chars \<and>
     bargs = EnsureSet (BytesConstant chars bytes_t) bytes_t # map snd b"
  by (auto simp: try_bind_func_args_def Let_def NO_MATCH_def
           split: if_splits sum.splits option.splits prod.splits)

text \<open>
  C8, as the code has it. A match of a function implemented in the query language, with
  parameters, starts with one bytes constant of \<open>nparams div 8 + 1\<close> characters, followed
  by one argument for each entry of \<open>bound_param_args\<close>. Read as a little-endian
  bitmask (bit \<open>i\<close> is bit \<open>i mod 8\<close> of character \<open>i div 8\<close>), the constant has bit \<open>i\<close>
  set exactly when entry \<open>i\<close> had no value from the caller and was filled from the
  default. The entries stand in binding order: NAMED ONLY parameters first, then the
  positional ones, then one entry for each variadic argument. An entry with a value from
  the caller is passed on as it is.
\<close>

theorem defaults_bitmask:
  assumes "params func \<noteq> []" "language func = EdgeQL"
    and "try_bind_func_args E args kwargs func = Inr bc" "bc_args bc = Some bargs"
    and "\<forall>(t, v)\<in>set args. v \<noteq> NoneIR" "\<forall>(k, t, v)\<in>set kwargs. v \<noteq> NoneIR"
  shows "\<exists>s bytes_t chars rest.
     bind_params E args kwargs (pg_params (as_pg_params func)) = Inr (Some s) \<and>
     std_bytes E = Some bytes_t \<and>
     bargs = EnsureSet (BytesConstant chars bytes_t) bytes_t # rest \<and>
     length chars = length (pg_params (as_pg_params func)) div 8 + 1 \<and>
     length rest = length (bound_param_args s) \<and>
     (\<forall>i. (i div 8 < length chars \<and> bit (of_char (chars ! (i div 8)) :: nat) (i mod 8)) =
           (i < length rest \<and> snd (bound_param_args s ! i) = NoneIR)) \<and>
     (\<forall>i<length rest. snd (bound_param_args s ! i) \<noteq> NoneIR \<longrightarrow>
           rest ! i = snd (bound_param_args s ! i))"
proof -
  from try_bind_edgeql_args[OF assms(1-4)] obtain s bytes_t b m bm chars where
    s: "bind_params E args kwargs (pg_params (as_pg_params func)) = Inr (Some s)"
    and bt: "std_bytes E = Some bytes_t"
    and pop: "(if populate_defaults s
        then populate E True (resolved_poly_base_type s) 0 (bound_param_args s)
      else Inr (bound_param_args s, 0)) = Inr (b, m)"
    and tb: "to_bytes m (length (pg_params (as_pg_params func)) div 8 + 1) = Inr bm"
    and dec: "decode_ascii bm = Inr chars"
    and bargs: "bargs = EnsureSet (BytesConstant chars bytes_t) bytes_t # map snd b"
    by blast
  note inv = bind_params_none[OF assms(5,6) s]
  have len: "length b = length (bound_param_args s)"
    using pop populate_length by (auto split: if_splits)
  have bits: "bit m i = (i < length (bound_param_args s) \<and> snd (bound_param_args s ! i) = NoneIR)"
    for i
  proof (cases "populate_defaults s")
    case True
    with pop populate_bits[of E True "resolved_poly_base_type s" 0 "bound_param_args s" b m i]
    show ?thesis by simp
  next
    case False
    with pop inv have "m = 0" "\<forall>e\<in>set (bound_param_args s). snd e \<noteq> NoneIR" by auto
    then show ?thesis by auto
  qed
  have kept: "map snd b ! i = snd (bound_param_args s ! i)"
    if "i < length (bound_param_args s)" "snd (bound_param_args s ! i) \<noteq> NoneIR" for i
  proof (cases "populate_defaults s")
    case True
    with pop populate_kept[of E True "resolved_poly_base_type s" 0 "bound_param_args s" b m i]
      that len show ?thesis by simp
  next
    case False
    with pop that show ?thesis by simp
  qed
  note mt = mask_text_bits[OF tb dec]
  from mt have l2: "length chars = length (pg_params (as_pg_params func)) div 8 + 1"
    by (rule conjunct1)
  from mt have "\<forall>i. (i div 8 < length chars \<and>
                    bit (of_char (chars ! (i div 8)) :: nat) (i mod 8)) = bit m i"
    by (rule conjunct2)
  then have tb2: "(i div 8 < length chars \<and>
                    bit (of_char (chars ! (i div 8)) :: nat) (i mod 8)) =
       (i < length (bound_param_args s) \<and> snd (bound_param_args s ! i) = NoneIR)" for i
    using bits[of i] by simp
  have "bind_params E args kwargs (pg_params (as_pg_params func)) = Inr (Some s) \<and>
     std_bytes E = Some bytes_t \<and>
     bargs = EnsureSet (BytesConstant chars bytes_t) bytes_t # map snd b \<and>
     length chars = length (pg_params (as_pg_params func)) div 8 + 1 \<and>
     length (map snd b) = length (bound_param_args s) \<and>
     (\<forall>i. (i div 8 < length chars \<and> bit (of_char (chars ! (i div 8)) :: nat) (i mod 8)) =
           (i < length (map snd b) \<and> snd (bound_param_args s ! i) = NoneIR)) \<and>
     (\<forall>i<length (map snd b). snd (bound_param_args s ! i) \<noteq> NoneIR \<longrightarrow>
           map snd b ! i = snd (bound_param_args s ! i))"
    using s bt bargs l2 len tb2 kept by (auto simp only: length_map simp_thms)
  then show ?thesis by blast
qed


lemma char_of_one: "char_of (Suc 0) = CHR 0x01"
  by code_simp

lemma char_of_zero: "char_of (0::nat) = CHR 0x00"
  by code_simp

lemma ex_f_call_1:
  "try_bind_func_args ex_env [(''std::int64'', Expr 7)] [] ex_f =
     Inr \<lparr> bc_func = Some ex_f,
           bc_args = Some [EnsureSet (BytesConstant [CHR 0x01] ''std::bytes'') ''std::bytes'',
                           EnsureSet (EmptySet ''std::str'' ''y'') ''std::str'', Expr 7],
           bc_return_type = Some ''std::str'',
           used_implicit_casts = False, has_empty_variadic = False \<rparr>"
  by (simp add: ex_defs ex_f_def char_of_one char_of_zero)

lemma ex_f_call_2:
  "try_bind_func_args ex_env [(''std::int64'', Expr 7)] [(''y'', (''std::str'', Expr 8))] ex_f =
     Inr \<lparr> bc_func = Some ex_f,
           bc_args = Some [EnsureSet (BytesConstant [CHR 0x00] ''std::bytes'') ''std::bytes'',
                           Expr 8, Expr 7],
           bc_return_type = Some ''std::str'',
           used_implicit_casts = False, has_empty_variadic = False \<rparr>"
  by (simp add: ex_defs ex_f_def char_of_one char_of_zero)

lemma ex_f_declared_call:
  "try_bind_func_args ex_env [(''std::int64'', Expr 7)] [] ex_f_declared = Inl RuntimeError"
  by (simp add: ex_defs ex_f_declared_def)

theorem defaults_bitmask_witness:
  "params ex_f \<noteq> [] \<and> language ex_f = EdgeQL \<and>
   try_bind_func_args ex_env [(''std::int64'', Expr 7)] [] ex_f =
     Inr \<lparr> bc_func = Some ex_f,
           bc_args = Some [EnsureSet (BytesConstant [CHR 0x01] ''std::bytes'') ''std::bytes'',
                           EnsureSet (EmptySet ''std::str'' ''y'') ''std::str'', Expr 7],
           bc_return_type = Some ''std::str'',
           used_implicit_casts = False, has_empty_variadic = False \<rparr> \<and>
   list_all (\<lambda>(t, v). v \<noteq> NoneIR) [(''std::int64'', Expr 7 :: string ir)] \<and>
   (\<exists>s bytes_t chars rest.
      bind_params ex_env [(''std::int64'', Expr 7)] [] (pg_params (as_pg_params ex_f)) =
        Inr (Some s) \<and>
      std_bytes ex_env = Some bytes_t \<and>
      [EnsureSet (BytesConstant [CHR 0x01] ''std::bytes'') ''std::bytes'',
       EnsureSet (EmptySet ''std::str'' ''y'') ''std::str'', Expr 7] =
        EnsureSet (BytesConstant chars bytes_t) bytes_t # rest \<and>
      length chars = length (pg_params (as_pg_params ex_f)) div 8 + 1 \<and>
      length rest = length (bound_param_args s) \<and>
      (\<forall>i. (i div 8 < length chars \<and> bit (of_char (chars ! (i div 8)) :: nat) (i mod 8)) =
            (i < length rest \<and> snd (bound_param_args s ! i) = NoneIR)) \<and>
      (\<forall>i<length rest. snd (bound_param_args s ! i) \<noteq> NoneIR \<longrightarrow>
            rest ! i = snd (bound_param_args s ! i)))"
proof -
  have 1: "params ex_f \<noteq> []" and 2: "language ex_f = EdgeQL"
    by (simp_all add: ex_f_def mk_func_def Let_def)
  have 4: "bc_args \<lparr> bc_func = Some ex_f,
           bc_args = Some [EnsureSet (BytesConstant [CHR 0x01] ''std::bytes'') ''std::bytes'',
                           EnsureSet (EmptySet ''std::str'' ''y'') ''std::str'', Expr 7],
           bc_return_type = Some ''std::str'',
           used_implicit_casts = False, has_empty_variadic = False \<rparr> =
        Some [EnsureSet (BytesConstant [CHR 0x01] ''std::bytes'') ''std::bytes'',
              EnsureSet (EmptySet ''std::str'' ''y'') ''std::str'', Expr 7]"
    by simp
  have 5: "\<forall>(t, v)\<in>set [(''std::int64'', Expr 7 :: string ir)]. v \<noteq> NoneIR"
    and 6: "\<forall>(k, t, v)\<in>set ([] :: string call_kwargs). v \<noteq> NoneIR"
    and 7: "list_all (\<lambda>(t, v). v \<noteq> NoneIR) [(''std::int64'', Expr 7 :: string ir)]"
    by simp_all
  note t = defaults_bitmask[OF 1 2 ex_f_call_1 4 5 6]
  from 1 2 ex_f_call_1 7 t show ?thesis by (intro conjI)
qed

text \<open>
  The example of the claim. For \<open>f(x: int64, NAMED ONLY y: str = "a")\<close> the call \<open>f(1)\<close>
  binds \<open>y\<close> first, so the mask is the byte 1: bit 0 is set and bit 1 is not. (With the
  parameters left in declaration order the binder raises on the NAMED ONLY parameter it
  meets in step 3.) The call \<open>f(1, y := "b")\<close> gives the byte 0.
\<close>

theorem defaults_bitmask_counterexample:
  "try_bind_func_args ex_env [(''std::int64'', Expr 7)] [] ex_f =
     Inr \<lparr> bc_func = Some ex_f,
           bc_args = Some [EnsureSet (BytesConstant [CHR 0x01] ''std::bytes'') ''std::bytes'',
                           EnsureSet (EmptySet ''std::str'' ''y'') ''std::str'', Expr 7],
           bc_return_type = Some ''std::str'',
           used_implicit_casts = False, has_empty_variadic = False \<rparr> \<and>
   bit (of_char (CHR 0x01) :: nat) 0 \<and> \<not> bit (of_char (CHR 0x01) :: nat) 1 \<and>
   try_bind_func_args ex_env [(''std::int64'', Expr 7)] [] ex_f_declared = Inl RuntimeError"
proof -
  have "bit (of_char (CHR 0x01) :: nat) 0 \<and> \<not> bit (of_char (CHR 0x01) :: nat) 1"
    by code_simp
  then show ?thesis by (simp only: ex_f_call_1 ex_f_declared_call simp_thms)
qed

end
